theory Spec2Isabelle
  imports Main "HOL-Library.Word"
begin

section \<open>MultiArray: a row-major multi-dimensional array over a flat backing store\<close>

text \<open>
  The embedding follows \<^verbatim>\<open>multiarr.h\<close> and its two sibling variants: the variant with the
  public debug counter (inner fill through element addresses) and the older variant whose
  inner fill goes through iterators and whose level dispatch carries \<^verbatim>\<open>MaxLevel\<close>.

  \<^item> \<^verbatim>\<open>std::size_t\<close> is a 64-bit word: \<open>+\<close>, \<open>-\<close> and \<open>*\<close> wrap around modulo \<open>2 ^ 64\<close>.
  \<^item> The template parameter \<^verbatim>\<open>D\<close> is the length of \<open>d_dimensions\<close>; parameter packs are lists.
  \<^item> \<^verbatim>\<open>Container<T>\<close> is a list; positions in it are integer offsets from \<^verbatim>\<open>begin()\<close>.
  \<^item> The code has no \<^verbatim>\<open>throw\<close> and no check anywhere. What is not defined for the C++ program
    is \<open>None\<close> in the model: a store or load outside the backing store, a read of
    \<^verbatim>\<open>d_dimensions\<close> outside \<^verbatim>\<open>[0, D)\<close>, and a call of one of the two members that are only
    declared (\<^verbatim>\<open>product()\<close>, \<^verbatim>\<open>indexMap()\<close>).
  \<^item> Forming an address (\<^verbatim>\<open>&d_data[n]\<close>, \<^verbatim>\<open>begin() + n\<close>) is pointer arithmetic only and is never
    a fault by itself; only the stores that \<^verbatim>\<open>std::fill\<close> performs are checked against the
    extent of the backing store.
  \<^item> Allocation is assumed to succeed.
\<close>

type_synonym size_t = "64 word"

record 'a MultiArray =
  d_data :: "'a list"
  d_dimensions :: "size_t list"

text \<open>The debug variant adds one public member, \<^verbatim>\<open>std::size_t counter{0}\<close>.\<close>

record 'a MultiArray_debug = "'a MultiArray" +
  counter :: size_t

subsection \<open>Construction\<close>

text \<open>
  \<^verbatim>\<open>product(head, tail...)\<close> returns \<^verbatim>\<open>head * (sizeof...(Tail) == 0 ? 1 : product(tail...))\<close>.
  The overload without arguments is declared and never defined.
\<close>

fun product :: "size_t list \<Rightarrow> size_t option" where
  "product [] = None"
| "product (head # tail) =
     (if length tail = 0 then Some (head * 1)
      else case product tail of None \<Rightarrow> None | Some p \<Rightarrow> Some (head * p))"

text \<open>
  The constructor, reached through the factory \<^verbatim>\<open>makeMultiArray\<close>: \<^verbatim>\<open>d_data(product(args...))\<close>
  holds that many value-initialised elements (\<open>dflt\<close> stands for \<^verbatim>\<open>T()\<close>), and
  \<^verbatim>\<open>d_dimensions\<close> holds the arguments converted to \<^verbatim>\<open>std::size_t\<close>.
\<close>

definition makeMultiArray :: "'a \<Rightarrow> size_t list \<Rightarrow> 'a MultiArray option" where
  "makeMultiArray dflt args =
     (case product args of
        None \<Rightarrow> None
      | Some n \<Rightarrow> Some \<lparr>d_data = replicate (unat n) dflt, d_dimensions = args\<rparr>)"

definition makeMultiArray_debug :: "'a \<Rightarrow> size_t list \<Rightarrow> 'a MultiArray_debug option" where
  "makeMultiArray_debug dflt args =
     (case product args of
        None \<Rightarrow> None
      | Some n \<Rightarrow>
          Some \<lparr>d_data = replicate (unat n) dflt, d_dimensions = args, counter = 0\<rparr>)"

subsection \<open>Index mapping\<close>

text \<open>
  The loop \<^verbatim>\<open>for (idx = D - count; idx != D; ++idx) fac *= d_dimensions[idx]\<close>.
  An \<open>idx\<close> beyond \<open>D\<close> reads outside the array.
\<close>

function fac_loop :: "size_t list \<Rightarrow> nat \<Rightarrow> size_t \<Rightarrow> size_t option" where
  "fac_loop dims idx fac =
     (if idx = length dims then Some fac
      else if idx < length dims then fac_loop dims (Suc idx) (fac * dims ! idx)
      else None)"
  by pat_completeness auto
termination
  by (relation "measure (\<lambda>(dims, idx, fac). length dims - idx)") auto

declare fac_loop.simps [simp del]

text \<open>
  \<^verbatim>\<open>indexMap(head, tail...)\<close> with \<^verbatim>\<open>count = sizeof...(tail)\<close>. When \<open>count\<close> exceeds \<open>D\<close>, the
  unsigned \<^verbatim>\<open>D - count\<close> wraps to an index far beyond \<open>D\<close>, and the first read of
  \<^verbatim>\<open>d_dimensions\<close> is outside the array. The overload without arguments is only declared.
\<close>

fun indexMap :: "size_t list \<Rightarrow> size_t list \<Rightarrow> size_t option" where
  "indexMap dims [] = None"
| "indexMap dims (head # tail) =
     (let count = length tail in
      if length dims < count then None
      else case fac_loop dims (length dims - count) 1 of
        None \<Rightarrow> None
      | Some fac \<Rightarrow>
          (if count = 0 then Some (head * fac + 0)
           else case indexMap dims tail of
             None \<Rightarrow> None
           | Some rest \<Rightarrow> Some (head * fac + rest)))"

definition index :: "('a, 'z) MultiArray_scheme \<Rightarrow> size_t list \<Rightarrow> size_t option" where
  "index self args = indexMap (d_dimensions self) args"

text \<open>
  \<^verbatim>\<open>operator()\<close>: the const overload reads \<^verbatim>\<open>d_data[indexMap(args...)]\<close>; the other overload
  returns a reference, and \<open>operator_call_store\<close> is the assignment through it.
\<close>

definition operator_call :: "('a, 'z) MultiArray_scheme \<Rightarrow> size_t list \<Rightarrow> 'a option" where
  "operator_call self args =
     (case indexMap (d_dimensions self) args of
        None \<Rightarrow> None
      | Some off \<Rightarrow>
          if unat off < length (d_data self) then Some (d_data self ! unat off) else None)"

definition operator_call_store ::
  "('a, 'z) MultiArray_scheme \<Rightarrow> size_t list \<Rightarrow> 'a \<Rightarrow> ('a, 'z) MultiArray_scheme option" where
  "operator_call_store self args v =
     (case indexMap (d_dimensions self) args of
        None \<Rightarrow> None
      | Some off \<Rightarrow>
          if unat off < length (d_data self)
          then Some (self\<lparr>d_data := (d_data self)[unat off := v]\<rparr>)
          else None)"

subsection \<open>Size information and raw access\<close>

definition dim :: "('a, 'z) MultiArray_scheme \<Rightarrow> nat" where
  "dim self = length (d_dimensions self)"

definition size_dim :: "('a, 'z) MultiArray_scheme \<Rightarrow> size_t \<Rightarrow> size_t option" where
  "size_dim self k =
     (if unat k < length (d_dimensions self) then Some (d_dimensions self ! unat k) else None)"

definition data :: "('a, 'z) MultiArray_scheme \<Rightarrow> 'a list" where
  "data self = d_data self"

subsection \<open>Filling\<close>

text \<open>
  \<^verbatim>\<open>std::fill(first, last, val)\<close> is \<^verbatim>\<open>for (; first != last; ++first) *first = val;\<close>.
  Positions are offsets from the start of the backing store; a store at a position outside
  \<open>[0, length xs)\<close> is outside the container.
\<close>

function std_fill :: "'a list \<Rightarrow> int \<Rightarrow> int \<Rightarrow> 'a \<Rightarrow> 'a list option" where
  "std_fill xs first stop val =
     (if first = stop then Some xs
      else if 0 \<le> first \<and> first < int (length xs)
        then std_fill (xs[nat first := val]) (first + 1) stop val
      else None)"
  by pat_completeness auto
termination
  by (relation "measure (\<lambda>(xs, first, stop, val). nat (int (length xs) - first))") auto

declare std_fill.simps [simp del]

text \<open>The overload \<^verbatim>\<open>assign(val)\<close>: \<^verbatim>\<open>std::fill(d_data.begin(), d_data.end(), val)\<close>.\<close>

definition assign_fill ::
  "('a, 'z) MultiArray_scheme \<Rightarrow> 'a \<Rightarrow> ('a, 'z) MultiArray_scheme option" where
  "assign_fill self val =
     (case std_fill (d_data self) 0 (int (length (d_data self))) val of
        None \<Rightarrow> None
      | Some xs \<Rightarrow> Some (self\<lparr>d_data := xs\<rparr>))"

subsection \<open>Range assignment\<close>

text \<open>
  The loop \<^verbatim>\<open>for (size_t i = start; i != stop; ++i) body(i)\<close> over \<^verbatim>\<open>std::size_t\<close>. With
  \<open>stop\<close> below the start the counter wraps around before it meets \<open>stop\<close>.
\<close>

function for_loop :: "size_t \<Rightarrow> size_t \<Rightarrow> (size_t \<Rightarrow> 's \<Rightarrow> 's option) \<Rightarrow> 's \<Rightarrow> 's option" where
  "for_loop i stop body s =
     (if i = stop then Some s
      else case body i s of
        None \<Rightarrow> None
      | Some s' \<Rightarrow> for_loop (i + 1) stop body s')"
  by pat_completeness auto
termination
proof (relation "measure (\<lambda>(i, stop, body, s). unat (stop - i))")
  show "wf (measure (\<lambda>(i, stop, body, s). unat (stop - i)))"
    by simp
next
  fix i stop :: size_t and body :: "size_t \<Rightarrow> 's \<Rightarrow> 's option" and s x2 :: 's
  assume "i \<noteq> stop"
  then have nz: "stop - i \<noteq> 0"
    by simp
  have "stop - (i + 1) = (stop - i) - 1"
    by simp
  then have "unat (stop - (i + 1)) = unat (stop - i) - 1"
    using unat_minus_one [OF nz] by presburger
  moreover from nz have "unat (stop - i) \<noteq> 0"
    by (simp add: unat_eq_0)
  ultimately show "((i + 1, stop, body, x2), (i, stop, body, s))
      \<in> measure (\<lambda>(i, stop, body, s). unat (stop - i))"
    by simp
qed

declare for_loop.simps [simp del]

text \<open>
  \<^verbatim>\<open>Assign<Level>::assign(self, ranges, val, indices...)\<close> of \<^verbatim>\<open>multiarr.h\<close>, with the
  specialisation \<^verbatim>\<open>Assign<D - 1>\<close>. Of \<open>self\<close> the recursion reads \<open>d_dimensions\<close> and
  writes \<open>d_data\<close>, so the two members are passed apart. A level beyond \<open>D - 1\<close> has no
  specialisation to end at.
\<close>

function Assign ::
  "size_t list \<Rightarrow> (size_t \<times> size_t) list \<Rightarrow> 'a \<Rightarrow> nat \<Rightarrow> size_t list \<Rightarrow> 'a list
     \<Rightarrow> 'a list option" where
  "Assign dims ranges val Level indices xs =
     (let D = length dims in
      if D = 0 \<or> D - 1 < Level then None
      else if Level = D - 1 then
        (case indexMap dims (indices @ [fst (ranges ! (D - 1))]) of
           None \<Rightarrow> None
         | Some begin \<Rightarrow>
             let end = begin + (snd (ranges ! (D - 1)) - fst (ranges ! (D - 1)))
             in std_fill xs (uint begin) (uint end) val)
      else
        for_loop (fst (ranges ! Level)) (snd (ranges ! Level))
          (\<lambda>i ys. Assign dims ranges val (Level + 1) (indices @ [i]) ys) xs)"
  by pat_completeness auto
termination
  by (relation "measure (\<lambda>(dims, ranges, val, Level, indices, xs). length dims - Level)") auto

declare Assign.simps [simp del]

text \<open>The overload \<^verbatim>\<open>assign(ranges, val)\<close>: \<^verbatim>\<open>Assign<0>::assign(*this, ranges, val)\<close>.\<close>

definition assign ::
  "('a, 'z) MultiArray_scheme \<Rightarrow> (size_t \<times> size_t) list \<Rightarrow> 'a
     \<Rightarrow> ('a, 'z) MultiArray_scheme option" where
  "assign self ranges val =
     (case Assign (d_dimensions self) ranges val 0 [] (d_data self) of
        None \<Rightarrow> None
      | Some xs \<Rightarrow> Some (self\<lparr>d_data := xs\<rparr>))"

text \<open>
  The debug variant: the innermost level first adds the length of the inner range to
  \<open>counter\<close>. The recursion threads the backing store together with the counter.
\<close>

function Assign_debug ::
  "size_t list \<Rightarrow> (size_t \<times> size_t) list \<Rightarrow> 'a \<Rightarrow> nat \<Rightarrow> size_t list \<Rightarrow> 'a list \<times> size_t
     \<Rightarrow> ('a list \<times> size_t) option" where
  "Assign_debug dims ranges val Level indices st =
     (let D = length dims in
      if D = 0 \<or> D - 1 < Level then None
      else if Level = D - 1 then
        (let cnt = snd st + (snd (ranges ! (D - 1)) - fst (ranges ! (D - 1))) in
         case indexMap dims (indices @ [fst (ranges ! (D - 1))]) of
           None \<Rightarrow> None
         | Some begin \<Rightarrow>
             let end = begin + (snd (ranges ! (D - 1)) - fst (ranges ! (D - 1)))
             in (case std_fill (fst st) (uint begin) (uint end) val of
                   None \<Rightarrow> None
                 | Some ys \<Rightarrow> Some (ys, cnt)))
      else
        for_loop (fst (ranges ! Level)) (snd (ranges ! Level))
          (\<lambda>i st'. Assign_debug dims ranges val (Level + 1) (indices @ [i]) st') st)"
  by pat_completeness auto
termination
  by (relation "measure (\<lambda>(dims, ranges, val, Level, indices, st). length dims - Level)") auto

declare Assign_debug.simps [simp del]

definition assign_debug ::
  "'a MultiArray_debug \<Rightarrow> (size_t \<times> size_t) list \<Rightarrow> 'a \<Rightarrow> 'a MultiArray_debug option" where
  "assign_debug self ranges val =
     (case Assign_debug (d_dimensions self) ranges val 0 [] (d_data self, counter self) of
        None \<Rightarrow> None
      | Some (xs, cnt) \<Rightarrow> Some (self\<lparr>d_data := xs, counter := cnt\<rparr>))"

text \<open>
  The iterator variant: \<^verbatim>\<open>Assign<Level, MaxLevel>\<close> ends at the specialisation
  \<^verbatim>\<open>Assign<MaxLevel, MaxLevel>\<close> and is entered as \<^verbatim>\<open>Assign<0, D - 1>\<close>. Its inner fill runs
  between \<^verbatim>\<open>d_data.begin() + indexMap(...)\<close> and that iterator plus the length of the inner
  range; an iterator takes its offset as the signed \<^verbatim>\<open>difference_type\<close>. With \<open>D = 0\<close> the
  unsigned \<^verbatim>\<open>D - 1\<close> is the largest \<^verbatim>\<open>std::size_t\<close>, and no specialisation is reached.
\<close>

function Assign_iter ::
  "size_t list \<Rightarrow> (size_t \<times> size_t) list \<Rightarrow> 'a \<Rightarrow> nat \<Rightarrow> nat \<Rightarrow> size_t list \<Rightarrow> 'a list
     \<Rightarrow> 'a list option" where
  "Assign_iter dims ranges val Level MaxLevel indices xs =
     (let D = length dims in
      if MaxLevel < Level then None
      else if Level = MaxLevel then
        (case indexMap dims (indices @ [fst (ranges ! (D - 1))]) of
           None \<Rightarrow> None
         | Some off \<Rightarrow>
             let begin = sint off;
                 end = begin + sint (snd (ranges ! (D - 1)) - fst (ranges ! (D - 1)))
             in std_fill xs begin end val)
      else
        for_loop (fst (ranges ! Level)) (snd (ranges ! Level))
          (\<lambda>i ys. Assign_iter dims ranges val (Level + 1) MaxLevel (indices @ [i]) ys) xs)"
  by pat_completeness auto
termination
  by (relation "measure (\<lambda>(dims, ranges, val, Level, MaxLevel, indices, xs). MaxLevel - Level)")
    auto

declare Assign_iter.simps [simp del]

definition assign_iter ::
  "('a, 'z) MultiArray_scheme \<Rightarrow> (size_t \<times> size_t) list \<Rightarrow> 'a
     \<Rightarrow> ('a, 'z) MultiArray_scheme option" where
  "assign_iter self ranges val =
     (if length (d_dimensions self) = 0 then None
      else case Assign_iter (d_dimensions self) ranges val 0 (length (d_dimensions self) - 1) []
                  (d_data self) of
        None \<Rightarrow> None
      | Some xs \<Rightarrow> Some (self\<lparr>d_data := xs\<rparr>))"

section \<open>Specification vocabulary\<close>

text \<open>
  The stride of axis \<open>k\<close> is the product of the axis sizes to its right, and the row-major
  offset of an argument list is the sum of its entries times the strides of the last axes.
  Both are taken in \<^verbatim>\<open>std::size_t\<close> arithmetic, as the code computes them.
\<close>

definition stride :: "size_t list \<Rightarrow> nat \<Rightarrow> size_t" where
  "stride dims k = prod_list (drop (Suc k) dims)"

definition offset_sum :: "size_t list \<Rightarrow> size_t list \<Rightarrow> size_t" where
  "offset_sum dims js =
     (\<Sum>m < length js. js ! m * stride dims (length dims - length js + m))"

text \<open>The list \<open>xs\<close> with the value \<open>v\<close> stored at every position of \<open>S\<close>.\<close>

definition overwrite :: "'a list \<Rightarrow> nat set \<Rightarrow> 'a \<Rightarrow> 'a list" where
  "overwrite xs S v = map (\<lambda>p. if p \<in> S then v else xs ! p) [0..<length xs]"

text \<open>
  The invariant as the code establishes it: the backing store has as many elements as the
  member function \<^verbatim>\<open>product\<close> returns for the stored dimensions, which is their product
  modulo \<open>2 ^ 64\<close>. Beside \<open>no_overflow\<close> this is the invariant of the data model,
  \<open>slot_invariant\<close> below.
\<close>

definition invariant :: "('a, 'z) MultiArray_scheme \<Rightarrow> bool" where
  "invariant self =
     (case product (d_dimensions self) of
        None \<Rightarrow> False
      | Some n \<Rightarrow> length (d_data self) = unat n)"

text \<open>
  Index tuples inside the array, range tables inside the array (half-open, \<open>begin \<le> end\<close>,
  \<open>end\<close> at most the axis size), and index tuples inside the box of a range table.
\<close>

definition valid_index :: "size_t list \<Rightarrow> size_t list \<Rightarrow> bool" where
  "valid_index dims idx = list_all2 (<) idx dims"

definition valid_ranges :: "size_t list \<Rightarrow> (size_t \<times> size_t) list \<Rightarrow> bool" where
  "valid_ranges dims ranges = list_all2 (\<lambda>r d. fst r \<le> snd r \<and> snd r \<le> d) ranges dims"

definition in_box :: "(size_t \<times> size_t) list \<Rightarrow> size_t list \<Rightarrow> bool" where
  "in_box ranges idx = list_all2 (\<lambda>i r. fst r \<le> i \<and> i < snd r) idx ranges"

text \<open>The number of index tuples in the box of a range table, in \<^verbatim>\<open>std::size_t\<close> arithmetic.\<close>

definition box_size :: "(size_t \<times> size_t) list \<Rightarrow> size_t" where
  "box_size ranges = prod_list (map (\<lambda>r. snd r - fst r) ranges)"

text \<open>
  The product of the axis sizes as a natural number, without wrap-around, fits
  \<^verbatim>\<open>std::size_t\<close>.
\<close>

definition no_overflow :: "size_t list \<Rightarrow> bool" where
  "no_overflow dims = (prod_list (map unat dims) < 2 ^ 64)"

text \<open>
  The invariant of the data model: \<open>D \<ge> 1\<close>, and the length of the backing store is the
  product of the axis sizes as a natural number, one slot for each valid index tuple.
\<close>

definition slot_invariant :: "('a, 'z) MultiArray_scheme \<Rightarrow> bool" where
  "slot_invariant self =
     (d_dimensions self \<noteq> [] \<and>
      length (d_data self) = prod_list (map unat (d_dimensions self)))"

text \<open>
  The row-major offset over the natural numbers, without wrap-around: the first index times
  the product of the remaining axis sizes, plus the offset of the remaining indices.
\<close>

fun offset_nat :: "nat list \<Rightarrow> nat list \<Rightarrow> nat" where
  "offset_nat (d # ds) (i # is) = i * prod_list ds + offset_nat ds is"
| "offset_nat ds is = 0"

text \<open>
  The slots of the runs that \<^verbatim>\<open>Assign<Level>\<close> fills once the outer indices are fixed:
  the unwrapped row-major offsets of the outer indices followed by any tuple inside the
  remaining ranges.
\<close>

definition run_slots ::
  "size_t list \<Rightarrow> (size_t \<times> size_t) list \<Rightarrow> nat \<Rightarrow> size_t list \<Rightarrow> nat set" where
  "run_slots dims ranges Level indices =
     {offset_nat (map unat dims) (map unat indices @ js) | js.
        list_all2 (\<lambda>j r. unat (fst r) \<le> j \<and> j < unat (snd r)) js (drop Level ranges)}"

text \<open>
  A \<^verbatim>\<open>std::vector\<close> never holds more than \<^verbatim>\<open>PTRDIFF_MAX\<close> elements.
\<close>

definition PTRDIFF_MAX :: int where
  "PTRDIFF_MAX = 2 ^ 63 - 1"

text \<open>
  An array that \<^verbatim>\<open>makeMultiArray<T>(4294967297, 4294967296)\<close> constructs: over the natural
  numbers the two sizes multiply to \<open>2 ^ 64 + 2 ^ 32\<close>; \<^verbatim>\<open>product\<close> multiplies them in
  \<^verbatim>\<open>std::size_t\<close> and returns \<open>2 ^ 32\<close>, the number of elements of the backing store.
\<close>

definition wide_dims :: "size_t list" where
  "wide_dims = [4294967297, 4294967296]"

definition wide_array :: "nat MultiArray" where
  "wide_array = \<lparr>d_data = replicate 4294967296 0, d_dimensions = wide_dims\<rparr>"

section \<open>Arithmetic of the loop counter\<close>

lemma unat_inc: "(i :: 'a::len word) < stop \<Longrightarrow> unat (i + 1) = Suc (unat i)"
proof -
  assume "i < stop"
  then have "unat i < unat stop"
    by (simp add: word_less_nat_alt)
  moreover have "unat stop < 2 ^ LENGTH('a)"
    by (rule unsigned_less)
  moreover have "unat (1 :: 'a word) = 1"
    by simp
  ultimately have "unat i + unat (1 :: 'a word) < 2 ^ LENGTH('a)"
    by linarith
  then have "unat (i + 1) = unat i + unat (1 :: 'a word)"
    by (rule unat_add_lem [THEN iffD1])
  then show ?thesis by simp
qed

lemma word_le_inc: "(i :: 'a::len word) < stop \<Longrightarrow> i \<le> i + 1"
  by (simp add: word_le_nat_alt unat_inc)

lemma word_lt_inc_iff: "(i :: 'a::len word) < stop \<Longrightarrow> j < i + 1 \<longleftrightarrow> j \<le> i"
  by (auto simp add: word_le_nat_alt word_less_nat_alt unat_inc)

section \<open>The index mapping in closed form\<close>

lemma fac_loop_prod:
  "idx \<le> length dims \<Longrightarrow> fac_loop dims idx fac = Some (fac * prod_list (drop idx dims))"
proof (induction dims idx fac rule: fac_loop.induct)
  case (1 dims idx fac)
  show ?case
  proof (cases "idx = length dims")
    case True
    then show ?thesis
      by (subst fac_loop.simps) simp
  next
    case False
    with "1.prems" have lt: "idx < length dims"
      by simp
    then have "drop idx dims = dims ! idx # drop (Suc idx) dims"
      by (simp add: Cons_nth_drop_Suc)
    with "1.IH" [OF False lt] lt show ?thesis
      by (simp add: fac_loop.simps [of dims idx] mult.assoc)
  qed
qed

lemma indexMap_offset_sum:
  "js \<noteq> [] \<Longrightarrow> length js \<le> length dims \<Longrightarrow> indexMap dims js = Some (offset_sum dims js)"
proof (induction js)
  case Nil
  then show ?case by simp
next
  case (Cons h t)
  have fac: "fac_loop dims (length dims - length t) 1 = Some (prod_list (drop (length dims - length t) dims))"
    by (simp add: fac_loop_prod)
  have s0: "Suc (length dims - Suc (length t)) = length dims - length t"
    using Cons.prems by simp
  let ?f = "\<lambda>m. (h # t) ! m * stride dims (length dims - length (h # t) + m)"
  have "offset_sum dims (h # t) = (\<Sum>m < Suc (length t). ?f m)"
    by (simp add: offset_sum_def)
  also have "\<dots> = ?f 0 + (\<Sum>m < length t. ?f (Suc m))"
    by (rule sum.lessThan_Suc_shift)
  also have "(\<Sum>m < length t. ?f (Suc m)) = offset_sum dims t"
    unfolding offset_sum_def
  proof (rule sum.cong)
    fix m
    have "length dims - length (h # t) + Suc m = length dims - length t + m"
      using Cons.prems by simp
    then have "stride dims (length dims - length (h # t) + Suc m) =
        stride dims (length dims - length t + m)"
      by (rule arg_cong)
    then show "?f (Suc m) = t ! m * stride dims (length dims - length t + m)"
      by (simp only: nth_Cons_Suc)
  qed simp
  also have "?f 0 = h * prod_list (drop (length dims - length t) dims)"
    using s0 by (simp add: stride_def)
  finally have shift: "offset_sum dims (h # t) =
      h * prod_list (drop (length dims - length t) dims) + offset_sum dims t" .
  show ?case
  proof (cases t)
    case Nil
    then show ?thesis
      using fac shift by (simp add: offset_sum_def)
  next
    case (Cons a list)
    with Cons.IH Cons.prems have "indexMap dims t = Some (offset_sum dims t)"
      by simp
    then show ?thesis
      using fac shift Cons.prems Cons by (simp add: Let_def)
  qed
qed

section \<open>Filling and looping\<close>

lemma product_prod_list: "args \<noteq> [] \<Longrightarrow> product args = Some (prod_list args)"
proof (induction args)
  case Nil
  then show ?case by simp
next
  case (Cons h t)
  then show ?case by (cases t) simp_all
qed

lemma length_overwrite [simp]: "length (overwrite xs S v) = length xs"
  by (simp add: overwrite_def)

lemma nth_overwrite [simp]:
  "p < length xs \<Longrightarrow> overwrite xs S v ! p = (if p \<in> S then v else xs ! p)"
  by (simp add: overwrite_def)

lemma overwrite_empty [simp]: "overwrite xs {} v = xs"
  by (simp add: list_eq_iff_nth_eq)

lemma overwrite_overwrite [simp]: "overwrite (overwrite xs A v) B v = overwrite xs (A \<union> B) v"
  by (simp add: list_eq_iff_nth_eq)

lemma std_fill_same [simp]: "std_fill xs first first val = Some xs"
  by (subst std_fill.simps) simp

lemma std_fill_overwrite:
  "0 \<le> first \<Longrightarrow> first \<le> stop \<Longrightarrow> stop \<le> int (length xs) \<Longrightarrow>
   std_fill xs first stop val = Some (overwrite xs {nat first ..< nat stop} val)"
proof (induction "nat (stop - first)" arbitrary: xs first)
  case 0
  then have "first = stop" by simp
  then show ?case by simp
next
  case (Suc n)
  then have lt: "first < stop" by linarith
  with Suc.prems have inb: "nat first < length xs" by linarith
  have n: "n = nat (stop - (first + 1))"
    using Suc.hyps(2) by linarith
  have "std_fill xs first stop val = std_fill (xs[nat first := val]) (first + 1) stop val"
    using lt Suc.prems by (subst std_fill.simps) simp
  also have "\<dots> = Some (overwrite (xs[nat first := val]) {nat (first + 1) ..< nat stop} val)"
    using Suc.hyps(1) [OF n] Suc.prems lt by simp
  also have "overwrite (xs[nat first := val]) {nat (first + 1) ..< nat stop} val =
      overwrite xs {nat first ..< nat stop} val"
    using inb lt Suc.prems(1)
    by (auto simp add: list_eq_iff_nth_eq nth_list_update nat_add_distrib)
  finally show ?case .
qed

lemma std_fill_length: "std_fill xs first stop val = Some ys \<Longrightarrow> length ys = length xs"
proof (induction xs first stop val arbitrary: ys rule: std_fill.induct)
  case (1 xs first stop val)
  show ?case
  proof (cases "first = stop")
    case True
    with "1.prems" show ?thesis by simp
  next
    case False
    with "1.prems" have inb: "0 \<le> first \<and> first < int (length xs)"
      by (subst (asm) std_fill.simps) (simp split: if_splits)
    with "1.prems" False have "std_fill (xs[nat first := val]) (first + 1) stop val = Some ys"
      by (subst (asm) std_fill.simps) simp
    from "1.IH" [OF False inb this] show ?thesis by simp
  qed
qed

lemma for_loop_same [simp]: "for_loop i i body s = Some s"
  by (subst for_loop.simps) simp

lemma for_loop_step:
  "i \<noteq> stop \<Longrightarrow> for_loop i stop body s =
     (case body i s of None \<Rightarrow> None | Some s' \<Rightarrow> for_loop (i + 1) stop body s')"
  by (subst for_loop.simps) simp

lemma for_loop_preserves:
  "(\<And>i s s'. I s \<Longrightarrow> body i s = Some s' \<Longrightarrow> I s') \<Longrightarrow>
   I s \<Longrightarrow> for_loop i stop body s = Some s' \<Longrightarrow> I s'"
proof (induction i stop body s rule: for_loop.induct)
  case (1 i stop body s)
  show ?case
  proof (cases "i = stop")
    case True
    with "1.prems" show ?thesis by simp
  next
    case False
    with "1.prems"(3) obtain s1 where b: "body i s = Some s1"
      and r: "for_loop (i + 1) stop body s1 = Some s'"
      by (auto simp add: for_loop_step split: option.splits)
    from "1.prems"(2) b have "I s1" by (rule "1.prems"(1))
    with "1.IH" [OF False b "1.prems"(1)] r show ?thesis by simp
  qed
qed

lemma for_loop_cong_inv:
  "(\<And>i s. I s \<Longrightarrow> body1 i s = body2 i s) \<Longrightarrow>
   (\<And>i s s'. I s \<Longrightarrow> body1 i s = Some s' \<Longrightarrow> I s') \<Longrightarrow>
   I s \<Longrightarrow> for_loop i stop body1 s = for_loop i stop body2 s"
proof (induction i stop body1 s rule: for_loop.induct)
  case (1 i stop body1 s)
  show ?case
  proof (cases "i = stop")
    case True
    then show ?thesis by simp
  next
    case False
    have eq: "body2 i s = body1 i s"
      using "1.prems"(1) [OF "1.prems"(3)] by simp
    show ?thesis
    proof (cases "body1 i s")
      case None
      with False eq show ?thesis
        by (simp add: for_loop_step)
    next
      case (Some s1)
      with "1.prems" have "I s1" by blast
      with "1.IH" [OF False Some "1.prems"(1,2)]
      have "for_loop (i + 1) stop body1 s1 = for_loop (i + 1) stop body2 s1"
        by simp
      with False Some eq show ?thesis
        by (simp add: for_loop_step)
    qed
  qed
qed

lemma for_loop_id:
  "(\<And>i s. body i s = Some s) \<Longrightarrow> for_loop i stop body s = Some s"
proof (induction i stop body s rule: for_loop.induct)
  case (1 i stop body s)
  show ?case
  proof (cases "i = stop")
    case True
    then show ?thesis by simp
  next
    case False
    with "1.IH" [OF False "1.prems" "1.prems"] "1.prems" show ?thesis
      by (simp add: for_loop_step)
  qed
qed

lemma for_loop_counter:
  "(\<And>i s c. body' i (s, c) = map_option (\<lambda>d. (d, c + k)) (body i s)) \<Longrightarrow>
   for_loop i stop body' (s, c) =
     map_option (\<lambda>d. (d, c + (stop - i) * k)) (for_loop i stop body s)"
proof (induction i stop body s arbitrary: c rule: for_loop.induct)
  case (1 i stop body s)
  show ?case
  proof (cases "i = stop")
    case True
    then show ?thesis by simp
  next
    case False
    show ?thesis
    proof (cases "body i s")
      case None
      with False "1.prems" show ?thesis
        by (simp add: for_loop_step)
    next
      case (Some s1)
      have "for_loop (i + 1) stop body' (s1, c + k) =
          map_option (\<lambda>d. (d, c + k + (stop - (i + 1)) * k)) (for_loop (i + 1) stop body s1)"
        by (rule "1.IH" [OF False Some "1.prems"])
      moreover have "c + k + (stop - (i + 1)) * k = c + (stop - i) * k"
        by (simp add: algebra_simps)
      ultimately show ?thesis
        using False Some "1.prems" by (simp add: for_loop_step)
    qed
  qed
qed

lemma for_loop_rule:
  "i \<le> stop \<Longrightarrow> P i s \<Longrightarrow>
   (\<And>j t. i \<le> j \<Longrightarrow> j < stop \<Longrightarrow> P j t \<Longrightarrow> \<exists>t'. body j t = Some t' \<and> P (j + 1) t') \<Longrightarrow>
   \<exists>s'. for_loop i stop body s = Some s' \<and> P stop s'"
proof (induction i stop body s rule: for_loop.induct)
  case (1 i stop body s)
  show ?case
  proof (cases "i = stop")
    case True
    with "1.prems"(2) show ?thesis by simp
  next
    case False
    with "1.prems"(1) have lt: "i < stop" by simp
    from "1.prems"(3) [OF order_refl lt "1.prems"(2)]
    obtain s1 where b: "body i s = Some s1" and p: "P (i + 1) s1"
      by blast
    from lt have le1: "i + 1 \<le> stop"
      by (rule inc_le)
    from lt have ile: "i \<le> i + 1"
      by (rule word_le_inc)
    have step: "\<And>j t. i + 1 \<le> j \<Longrightarrow> j < stop \<Longrightarrow> P j t \<Longrightarrow>
        \<exists>t'. body j t = Some t' \<and> P (j + 1) t'"
      using "1.prems"(3) ile by (meson order_trans)
    from "1.IH" [OF False b le1 p step] False b show ?thesis
      by (simp add: for_loop_step)
  qed
qed

section \<open>Length preservation, fills through iterators, the counter, empty axes\<close>

lemma Assign_length:
  "Assign dims ranges val Level indices xs = Some ys \<Longrightarrow> length ys = length xs"
proof (induction dims ranges val Level indices xs arbitrary: ys rule: Assign.induct)
  case (1 dims ranges val Level indices xs)
  let ?D = "length dims"
  from "1.prems" have ok: "\<not> (?D = 0 \<or> ?D - 1 < Level)"
    by (subst (asm) Assign.simps) (simp add: Let_def split: if_splits)
  show ?case
  proof (cases "Level = ?D - 1")
    case True
    with "1.prems" ok show ?thesis
      by (subst (asm) Assign.simps)
        (auto simp add: Let_def split: option.splits dest: std_fill_length)
  next
    case False
    let ?body = "\<lambda>i ys. Assign dims ranges val (Level + 1) (indices @ [i]) ys"
    from "1.prems" ok False
    have loop: "for_loop (fst (ranges ! Level)) (snd (ranges ! Level)) ?body xs = Some ys"
      by (subst (asm) Assign.simps) (simp add: Let_def)
    have "\<And>i s s'. length s = length xs \<Longrightarrow> ?body i s = Some s' \<Longrightarrow> length s' = length xs"
      using "1.IH" [OF refl ok False] by simp
    from for_loop_preserves [of "\<lambda>s. length s = length xs" ?body, OF this _ loop]
    show ?thesis by simp
  qed
qed

lemma sint_mod: "sint (w :: 64 word) mod 2 ^ 64 = uint w"
proof -
  have "sint w mod 2 ^ 64 = take_bit 64 (signed_take_bit 63 (uint w))"
    by (simp add: sint_uint take_bit_eq_mod)
  also have "\<dots> = take_bit 64 (uint w)"
    by (simp add: take_bit_signed_take_bit)
  also have "\<dots> = uint w"
    using uint_lt2p [of w] by (simp add: take_bit_eq_mod)
  finally show ?thesis .
qed

lemma sint_cases:
  "sint (w :: 64 word) = (if uint w < 2 ^ 63 then uint w else uint w - 2 ^ 64)"
proof -
  have m: "sint w mod 2 ^ 64 = uint w" by (rule sint_mod)
  have lo: "- (2 ^ 63) \<le> sint w" using sint_ge [of w] by simp
  have hi: "sint w < 2 ^ 63" using sint_lt [of w] by simp
  show ?thesis
  proof (cases "0 \<le> sint w")
    case True
    with hi have "sint w mod 2 ^ 64 = sint w" by simp
    with m hi show ?thesis by simp
  next
    case False
    have "(sint w + 2 ^ 64) mod 2 ^ 64 = sint w + 2 ^ 64"
      using False lo by (intro mod_pos_pos_trivial) simp_all
    then have "sint w mod 2 ^ 64 = sint w + 2 ^ 64"
      by simp
    with m False lo show ?thesis by simp
  qed
qed

lemma std_fill_start_outside:
  "first \<noteq> stop \<Longrightarrow> \<not> (0 \<le> first \<and> first < int (length xs)) \<Longrightarrow>
   std_fill xs first stop val = None"
  by (subst std_fill.simps) auto

lemma std_fill_runs_off:
  "0 \<le> first \<Longrightarrow> first < int (length xs) \<Longrightarrow> \<not> (first \<le> stop \<and> stop \<le> int (length xs)) \<Longrightarrow>
   std_fill xs first stop val = None"
proof (induction "nat (int (length xs) - first)" arbitrary: xs first)
  case 0
  then show ?case by simp
next
  case (Suc n)
  from Suc.prems have ne: "first \<noteq> stop" by auto
  have unf: "std_fill xs first stop val = std_fill (xs[nat first := val]) (first + 1) stop val"
    using ne Suc.prems by (subst std_fill.simps) simp
  show ?case
  proof (cases "first + 1 < int (length xs)")
    case True
    have "n = nat (int (length (xs[nat first := val])) - (first + 1))"
      using Suc.hyps(2) by simp
    from Suc.hyps(1) [OF this] True Suc.prems
    have "std_fill (xs[nat first := val]) (first + 1) stop val = None"
      by simp
    with unf show ?thesis by simp
  next
    case False
    with Suc.prems have "first + 1 \<noteq> stop" by auto
    with False have "std_fill (xs[nat first := val]) (first + 1) stop val = None"
      by (intro std_fill_start_outside) simp_all
    with unf show ?thesis by simp
  qed
qed

lemma std_fill_iterator_address:
  fixes off len :: size_t
  assumes "int (length xs) \<le> PTRDIFF_MAX"
  shows "std_fill xs (sint off) (sint off + sint len) val =
         std_fill xs (uint off) (uint (off + len)) val"
proof (cases "len = 0")
  case True
  then show ?thesis by simp
next
  case False
  from assms have L: "int (length xs) < 2 ^ 63"
    by (simp add: PTRDIFF_MAX_def)
  from False have "uint len \<noteq> 0"
    by (simp add: uint_0_iff)
  with uint_nonnegative [of len] have n0: "0 < uint len"
    by linarith
  have n1: "uint len < 2 ^ 64" using uint_lt2p [of len] by simp
  have o0: "0 \<le> uint off" by simp
  have o1: "uint off < 2 ^ 64" using uint_lt2p [of off] by simp
  have sum: "uint (off + len) = (uint off + uint len) mod 2 ^ 64"
    by (simp add: uint_word_ariths)
  have sne: "sint len \<noteq> 0"
    using n0 n1 by (simp add: sint_cases)
  from False have "off + len \<noteq> off"
    by simp
  then have une: "uint (off + len) \<noteq> uint off"
    by (simp add: word_uint_eq_iff)
  show ?thesis
  proof (cases "uint off < int (length xs)")
    case inb: True
    with L have so: "sint off = uint off"
      by (simp add: sint_cases)
    show ?thesis
    proof (cases "uint len < 2 ^ 63")
      case True
      then have "sint len = uint len"
        by (simp add: sint_cases)
      moreover from True inb L have "uint off + uint len < 2 ^ 64"
        by simp
      then have "uint (off + len) = uint off + uint len"
        using sum o0 n0 by simp
      ultimately show ?thesis
        using so by simp
    next
      case False
      then have sl: "sint len = uint len - 2 ^ 64"
        by (simp add: sint_cases)
      with n1 have "sint off + sint len < uint off"
        using so by simp
      with inb o0 so have lhs: "std_fill xs (sint off) (sint off + sint len) val = None"
        by (intro std_fill_runs_off) simp_all
      have "\<not> (uint off \<le> uint (off + len) \<and> uint (off + len) \<le> int (length xs))"
      proof (cases "uint off + uint len < 2 ^ 64")
        case True
        then have "uint (off + len) = uint off + uint len"
          using sum o0 n0 by simp
        with False L o0 show ?thesis by linarith
      next
        case ov: False
        have "(uint off + uint len) mod 2 ^ 64 = (uint off + uint len - 2 ^ 64) mod 2 ^ 64"
          using ov by (intro mod_pos_geq) simp_all
        also have "\<dots> = uint off + uint len - 2 ^ 64"
          using ov o1 n1 by (intro mod_pos_pos_trivial) simp_all
        finally have "(uint off + uint len) mod 2 ^ 64 = uint off + uint len - 2 ^ 64" .
        with sum n1 show ?thesis by simp
      qed
      with inb o0 have "std_fill xs (uint off) (uint (off + len)) val = None"
        by (intro std_fill_runs_off) simp_all
      with lhs show ?thesis by simp
    qed
  next
    case outb: False
    from une outb have rhs: "std_fill xs (uint off) (uint (off + len)) val = None"
      by (intro std_fill_start_outside) simp_all
    have "\<not> (0 \<le> sint off \<and> sint off < int (length xs))"
      using outb o1 by (simp add: sint_cases)
    with sne have "std_fill xs (sint off) (sint off + sint len) val = None"
      by (intro std_fill_start_outside) simp_all
    with rhs show ?thesis by simp
  qed
qed

lemma Assign_iter_eq:
  "int (length xs) \<le> PTRDIFF_MAX \<Longrightarrow> length dims \<noteq> 0 \<Longrightarrow>
   Assign_iter dims ranges val Level (length dims - 1) indices xs =
   Assign dims ranges val Level indices xs"
proof (induction dims ranges val Level indices xs rule: Assign.induct)
  case (1 dims ranges val Level indices xs)
  let ?D = "length dims"
  show ?case
  proof (cases "?D - 1 < Level")
    case True
    then show ?thesis
      by (subst Assign.simps, subst Assign_iter.simps) simp
  next
    case ok: False
    show ?thesis
    proof (cases "Level = ?D - 1")
      case True
      with "1.prems" show ?thesis
        by (subst Assign.simps, subst Assign_iter.simps)
          (simp add: Let_def std_fill_iterator_address split: option.splits)
    next
      case False
      let ?b1 = "\<lambda>i ys. Assign dims ranges val (Level + 1) (indices @ [i]) ys"
      let ?b2 = "\<lambda>i ys. Assign_iter dims ranges val (Level + 1) (?D - 1) (indices @ [i]) ys"
      from ok "1.prems" have ok': "\<not> (?D = 0 \<or> ?D - 1 < Level)"
        by simp
      have agree: "\<And>i s. length s = length xs \<Longrightarrow> ?b1 i s = ?b2 i s"
        using "1.IH" [OF refl ok' False] "1.prems" by simp
      have keep: "\<And>i s s'. length s = length xs \<Longrightarrow> ?b1 i s = Some s' \<Longrightarrow> length s' = length xs"
        by (simp add: Assign_length)
      have "for_loop (fst (ranges ! Level)) (snd (ranges ! Level)) ?b1 xs =
          for_loop (fst (ranges ! Level)) (snd (ranges ! Level)) ?b2 xs"
        by (rule for_loop_cong_inv [of "\<lambda>s. length s = length xs", OF agree keep]) simp_all
      with ok' False show ?thesis
        by (subst Assign.simps, subst Assign_iter.simps) (simp add: Let_def)
    qed
  qed
qed

lemma Assign_debug_eq:
  "length ranges = length dims \<Longrightarrow>
   Assign_debug dims ranges val Level indices (xs, c) =
   map_option (\<lambda>ys. (ys, c + box_size (drop Level ranges)))
     (Assign dims ranges val Level indices xs)"
proof (induction dims ranges val Level indices xs arbitrary: c rule: Assign.induct)
  case (1 dims ranges val Level indices xs)
  let ?D = "length dims"
  show ?case
  proof (cases "?D = 0 \<or> ?D - 1 < Level")
    case True
    then show ?thesis
      by (subst Assign.simps, subst Assign_debug.simps) (simp add: Let_def)
  next
    case ok: False
    then have "dims \<noteq> []" and "Level \<le> ?D - 1"
      by auto
    then have lv: "Level < length ranges"
      using "1.prems" by (cases dims) simp_all
    then have dr: "drop Level ranges = ranges ! Level # drop (Suc Level) ranges"
      by (simp add: Cons_nth_drop_Suc)
    show ?thesis
    proof (cases "Level = ?D - 1")
      case True
      with "1.prems" ok have "drop (Suc Level) ranges = []"
        by simp
      with dr have bs: "box_size (drop Level ranges) = snd (ranges ! Level) - fst (ranges ! Level)"
        by (simp add: box_size_def)
      from ok True bs show ?thesis
        by (subst Assign.simps, subst Assign_debug.simps)
          (simp add: Let_def split: option.splits)
    next
      case False
      let ?k = "box_size (drop (Suc Level) ranges)"
      let ?b = "\<lambda>i ys. Assign dims ranges val (Level + 1) (indices @ [i]) ys"
      let ?b' = "\<lambda>i st'. Assign_debug dims ranges val (Level + 1) (indices @ [i]) st'"
      have rel: "\<And>i s c. ?b' i (s, c) = map_option (\<lambda>d. (d, c + ?k)) (?b i s)"
        using "1.IH" [OF refl ok False "1.prems"] by simp
      have "for_loop (fst (ranges ! Level)) (snd (ranges ! Level)) ?b' (xs, c) =
          map_option (\<lambda>d. (d, c + (snd (ranges ! Level) - fst (ranges ! Level)) * ?k))
            (for_loop (fst (ranges ! Level)) (snd (ranges ! Level)) ?b xs)"
        by (rule for_loop_counter [OF rel])
      moreover have "box_size (drop Level ranges) =
          (snd (ranges ! Level) - fst (ranges ! Level)) * ?k"
        by (simp add: dr box_size_def)
      ultimately show ?thesis
        using ok False
        by (subst Assign.simps, subst Assign_debug.simps) (simp add: Let_def)
    qed
  qed
qed

lemma Assign_empty_axis:
  "length ranges = length dims \<Longrightarrow> length indices = Level \<Longrightarrow> Level \<le> k \<Longrightarrow>
   k < length dims \<Longrightarrow> fst (ranges ! k) = snd (ranges ! k) \<Longrightarrow>
   Assign dims ranges val Level indices xs = Some xs"
proof (induction dims ranges val Level indices xs rule: Assign.induct)
  case (1 dims ranges val Level indices xs)
  let ?D = "length dims"
  from "1.prems" have ok: "\<not> (?D = 0 \<or> ?D - 1 < Level)"
    by auto
  show ?case
  proof (cases "Level = ?D - 1")
    case True
    with "1.prems" have k: "k = ?D - 1"
      by simp
    have "indexMap dims (indices @ [fst (ranges ! (?D - 1))]) =
        Some (offset_sum dims (indices @ [fst (ranges ! (?D - 1))]))"
      using True "1.prems" ok by (intro indexMap_offset_sum) simp_all
    with ok True k "1.prems"(5) show ?thesis
      by (subst Assign.simps) (simp add: Let_def)
  next
    case False
    let ?b = "\<lambda>i ys. Assign dims ranges val (Level + 1) (indices @ [i]) ys"
    have "for_loop (fst (ranges ! Level)) (snd (ranges ! Level)) ?b xs = Some xs"
    proof (cases "k = Level")
      case True
      with "1.prems"(5) show ?thesis by simp
    next
      case ne: False
      have "\<And>i s. ?b i s = Some s"
        using "1.IH" [OF refl ok False] "1.prems" ne by simp
      then show ?thesis
        by (rule for_loop_id)
    qed
    with ok False show ?thesis
      by (subst Assign.simps) (simp add: Let_def)
  qed
qed

section \<open>Row-major offsets over the natural numbers\<close>

lemma offset_nat_bound:
  "list_all2 (<) is ds \<Longrightarrow> offset_nat ds is < prod_list ds"
proof (induction "is" ds rule: list_all2_induct)
  case Nil
  then show ?case by simp
next
  case (Cons i "is" d ds)
  from Cons.hyps(1) have "Suc i \<le> d" by simp
  then have "Suc i * prod_list ds \<le> d * prod_list ds"
    by (rule mult_le_mono1)
  with Cons.IH show ?case by simp
qed

lemma offset_nat_inj:
  "list_all2 (<) is ds \<Longrightarrow> list_all2 (<) js ds \<Longrightarrow> offset_nat ds is = offset_nat ds js \<Longrightarrow>
   is = js"
proof (induction "is" ds arbitrary: js rule: list_all2_induct)
  case Nil
  then show ?case by simp
next
  case (Cons i "is" d ds)
  from Cons.prems(1) obtain j js' where js: "js = j # js'" and jd: "j < d"
    and rest: "list_all2 (<) js' ds"
    by (auto simp add: list_all2_Cons2)
  let ?P = "prod_list ds"
  have r1: "offset_nat ds is < ?P" using Cons.hyps(2) by (rule offset_nat_bound)
  have r2: "offset_nat ds js' < ?P" using rest by (rule offset_nat_bound)
  from Cons.prems(2) js have eq: "i * ?P + offset_nat ds is = j * ?P + offset_nat ds js'"
    by simp
  from r1 have "(i * ?P + offset_nat ds is) div ?P = i" by simp
  moreover from r2 have "(j * ?P + offset_nat ds js') div ?P = j" by simp
  ultimately have ij: "i = j" using eq by simp
  with eq have "offset_nat ds is = offset_nat ds js'" by simp
  with Cons.IH [OF rest] ij js show ?case by simp
qed

lemma offset_nat_surj:
  "n < prod_list ds \<Longrightarrow> \<exists>is. list_all2 (<) is ds \<and> offset_nat ds is = n"
proof (induction ds arbitrary: n)
  case Nil
  then show ?case by simp
next
  case (Cons d ds)
  let ?P = "prod_list ds"
  from Cons.prems have pos: "0 < ?P"
    by (cases "?P = 0") simp_all
  then have "n mod ?P < ?P" by simp
  from Cons.IH [OF this] obtain "is" where v: "list_all2 (<) is ds"
    and o: "offset_nat ds is = n mod ?P"
    by blast
  from Cons.prems have "n div ?P < d"
    by (simp add: less_mult_imp_div_less mult.commute)
  with v o have "list_all2 (<) (n div ?P # is) (d # ds) \<and> offset_nat (d # ds) (n div ?P # is) = n"
    by simp
  then show ?case by blast
qed

lemma offset_nat_append:
  "length pre = length dpre \<Longrightarrow>
   offset_nat (dpre @ dsuf) (pre @ suf) =
   offset_nat dpre pre * prod_list dsuf + offset_nat dsuf suf"
proof (induction pre dpre rule: list_induct2)
  case Nil
  then show ?case by simp
next
  case (Cons i pre d dpre)
  then show ?case by (simp add: algebra_simps)
qed

lemma prod_list_unat: "word_of_nat (prod_list (map unat ws)) = (prod_list ws :: size_t)"
  by (induction ws) simp_all

lemma indexMap_offset_nat:
  "js \<noteq> [] \<Longrightarrow> length js \<le> length dims \<Longrightarrow>
   indexMap dims js =
     Some (word_of_nat (offset_nat (map unat (drop (length dims - length js) dims)) (map unat js)))"
proof (induction js)
  case Nil
  then show ?case by simp
next
  case (Cons h t)
  let ?k = "length dims - length (h # t)"
  from Cons.prems have k: "?k < length dims" and sk: "Suc ?k = length dims - length t"
    by simp_all
  then have dr: "drop ?k dims = dims ! ?k # drop (length dims - length t) dims"
    by (metis Cons_nth_drop_Suc)
  have fac: "fac_loop dims (length dims - length t) 1 =
      Some (prod_list (drop (length dims - length t) dims))"
    by (simp add: fac_loop_prod)
  show ?case
  proof (cases t)
    case Nil
    with fac dr show ?thesis
      by (simp add: prod_list_unat)
  next
    case (Cons a list)
    with Cons.IH Cons.prems
    have "indexMap dims t =
        Some (word_of_nat (offset_nat (map unat (drop (length dims - length t) dims)) (map unat t)))"
      by simp
    with fac dr Cons.prems Cons show ?thesis
      by (simp add: Let_def prod_list_unat)
  qed
qed

section \<open>What a range assignment writes\<close>

lemma unat_size_t: "unat (w :: size_t) < 2 ^ 64"
proof -
  have "unat w < 2 ^ LENGTH(64)"
    by (rule unsigned_less)
  then show ?thesis by simp
qed

lemma offset_nat_snoc:
  "Suc (length pre) = length ds \<Longrightarrow>
   offset_nat ds (pre @ [j]) = offset_nat ds (pre @ [0]) + j"
proof -
  assume len: "Suc (length pre) = length ds"
  then have "ds \<noteq> []" by auto
  then have ds: "ds = butlast ds @ [last ds]" by simp
  from len have lp: "length pre = length (butlast ds)" by simp
  have "\<And>x. offset_nat (butlast ds @ [last ds]) (pre @ [x]) =
      offset_nat (butlast ds) pre * prod_list [last ds] + offset_nat [last ds] [x]"
    using lp by (rule offset_nat_append)
  then have "\<And>x. offset_nat ds (pre @ [x]) = offset_nat (butlast ds) pre * last ds + x"
    using ds by simp
  then show ?thesis by simp
qed

lemma run_slots_inner:
  assumes "length ranges = length dims" and "length indices = Level"
    and "Suc Level = length dims"
  shows "run_slots dims ranges Level indices =
    {offset_nat (map unat dims) (map unat indices @ [0]) + unat (fst (ranges ! Level)) ..<
     offset_nat (map unat dims) (map unat indices @ [0]) + unat (snd (ranges ! Level))}"
proof -
  let ?r = "ranges ! Level"
  let ?base = "offset_nat (map unat dims) (map unat indices @ [0])"
  from assms have "drop Level ranges = [?r]"
    by (metis Cons_nth_drop_Suc drop_all lessI order_refl)
  then have "run_slots dims ranges Level indices =
      {offset_nat (map unat dims) (map unat indices @ [j]) | j.
         unat (fst ?r) \<le> j \<and> j < unat (snd ?r)}"
    by (auto simp add: run_slots_def list_all2_Cons2)
  also have "\<dots> = {?base + j | j. unat (fst ?r) \<le> j \<and> j < unat (snd ?r)}"
    using assms by (subst offset_nat_snoc) simp_all
  also have "\<dots> = {?base + unat (fst ?r) ..< ?base + unat (snd ?r)}"
  proof (rule set_eqI)
    fix p
    show "p \<in> {?base + j | j. unat (fst ?r) \<le> j \<and> j < unat (snd ?r)} \<longleftrightarrow>
        p \<in> {?base + unat (fst ?r) ..< ?base + unat (snd ?r)}"
    proof
      assume "p \<in> {?base + unat (fst ?r) ..< ?base + unat (snd ?r)}"
      then have "p = ?base + (p - ?base) \<and> unat (fst ?r) \<le> p - ?base \<and> p - ?base < unat (snd ?r)"
        by auto
      then show "p \<in> {?base + j | j. unat (fst ?r) \<le> j \<and> j < unat (snd ?r)}"
        by blast
    qed auto
  qed
  finally show ?thesis .
qed

lemma run_slots_outer:
  assumes "Level < length ranges"
  shows "run_slots dims ranges Level indices =
    (\<Union>i \<in> {i. fst (ranges ! Level) \<le> i \<and> i < snd (ranges ! Level)}.
       run_slots dims ranges (Suc Level) (indices @ [i]))"
proof -
  let ?r = "ranges ! Level"
  let ?Q = "\<lambda>j r. unat (fst r) \<le> j \<and> j < unat (snd r)"
  from assms have dr: "drop Level ranges = ?r # drop (Suc Level) ranges"
    by (simp add: Cons_nth_drop_Suc)
  show ?thesis
  proof (rule set_eqI, rule iffI)
    fix p
    assume "p \<in> run_slots dims ranges Level indices"
    then obtain j js where p: "p = offset_nat (map unat dims) (map unat indices @ j # js)"
      and j: "unat (fst ?r) \<le> j" "j < unat (snd ?r)"
      and js: "list_all2 ?Q js (drop (Suc Level) ranges)"
      by (auto simp add: run_slots_def dr list_all2_Cons2)
    let ?i = "word_of_nat j :: size_t"
    from j(2) have "j < 2 ^ 64"
      using unat_size_t [of "snd ?r"] by simp
    then have uj: "unat ?i = j"
      by (simp add: unat_of_nat)
    with j have "fst ?r \<le> ?i \<and> ?i < snd ?r"
      by (simp add: word_le_nat_alt word_less_nat_alt)
    moreover from p js uj have "p \<in> run_slots dims ranges (Suc Level) (indices @ [?i])"
      by (auto simp add: run_slots_def)
    ultimately show "p \<in> (\<Union>i \<in> {i. fst ?r \<le> i \<and> i < snd ?r}.
        run_slots dims ranges (Suc Level) (indices @ [i]))"
      by blast
  next
    fix p
    assume "p \<in> (\<Union>i \<in> {i. fst ?r \<le> i \<and> i < snd ?r}.
        run_slots dims ranges (Suc Level) (indices @ [i]))"
    then obtain i js where i: "fst ?r \<le> i" "i < snd ?r"
      and p: "p = offset_nat (map unat dims) (map unat (indices @ [i]) @ js)"
      and js: "list_all2 ?Q js (drop (Suc Level) ranges)"
      by (auto simp add: run_slots_def)
    from i js have "list_all2 ?Q (unat i # js) (drop Level ranges)"
      by (simp add: dr word_le_nat_alt word_less_nat_alt)
    with p show "p \<in> run_slots dims ranges Level indices"
      by (auto simp add: run_slots_def)
  qed
qed

lemma unat_word_of_nat_small: "n < 2 ^ 64 \<Longrightarrow> unat (word_of_nat n :: size_t) = n"
  by (simp add: unat_of_nat)

lemma Assign_inner_fill:
  assumes len: "length ranges = length dims" "length indices = Level" "Suc Level = length dims"
    and ord: "fst (ranges ! Level) \<le> snd (ranges ! Level)"
    and L: "length xs < 2 ^ 64"
    and inb: "run_slots dims ranges Level indices \<subseteq> {..<length xs}"
  shows "Assign dims ranges val Level indices xs =
    Some (overwrite xs (run_slots dims ranges Level indices) val)"
proof -
  let ?b = "fst (ranges ! Level)" and ?e = "snd (ranges ! Level)"
  let ?base = "offset_nat (map unat dims) (map unat indices @ [0])"
  from len have lv: "Level = length dims - 1" and d0: "length dims \<noteq> 0"
    by auto
  have W: "run_slots dims ranges Level indices = {?base + unat ?b ..< ?base + unat ?e}"
    using len by (rule run_slots_inner)
  have "indexMap dims (indices @ [?b]) =
      Some (word_of_nat (offset_nat (map unat (drop (length dims - length (indices @ [?b])) dims))
        (map unat (indices @ [?b]))))"
    using len by (intro indexMap_offset_nat) simp_all
  also have "offset_nat (map unat (drop (length dims - length (indices @ [?b])) dims))
      (map unat (indices @ [?b])) = ?base + unat ?b"
    using len offset_nat_snoc [of "map unat indices" "map unat dims" "unat ?b"] by simp
  finally have im: "indexMap dims (indices @ [?b]) = Some (word_of_nat (?base + unat ?b))" .
  define bg :: size_t where "bg = word_of_nat (?base + unat ?b)"
  define base where "base = ?base"
  have unf: "Assign dims ranges val Level indices xs =
      std_fill xs (uint bg) (uint (bg + (?e - ?b))) val"
    using lv d0 im unfolding bg_def by (subst Assign.simps) (simp add: Let_def)
  have W': "run_slots dims ranges Level indices = {base + unat ?b ..< base + unat ?e}"
    using W by (simp add: base_def)
  show ?thesis
  proof (cases "?b = ?e")
    case True
    with W' unf show ?thesis by simp
  next
    case False
    with ord have lt: "unat ?b < unat ?e"
      by (simp add: word_less_nat_alt [symmetric])
    then have "base + unat ?e - 1 \<in> run_slots dims ranges Level indices"
      by (simp add: W')
    with inb have "base + unat ?e - 1 < length xs"
      by blast
    with lt have top: "base + unat ?e \<le> length xs"
      by linarith
    with L lt have "base + unat ?b < 2 ^ 64"
      by linarith
    then have ub: "unat bg = base + unat ?b"
      unfolding bg_def base_def by (rule unat_word_of_nat_small)
    from ord have ulen: "unat (?e - ?b) = unat ?e - unat ?b"
      by (rule unat_sub)
    have "unat bg + unat (?e - ?b) = base + unat ?e"
      using ub ulen lt by linarith
    with top L have "unat bg + unat (?e - ?b) < 2 ^ LENGTH(64)"
      by simp
    then have "unat (bg + (?e - ?b)) = unat bg + unat (?e - ?b)"
      by (rule unat_add_lem [THEN iffD1])
    with ub ulen lt have ue: "unat (bg + (?e - ?b)) = base + unat ?e"
      by linarith
    have "std_fill xs (int (unat bg)) (int (unat (bg + (?e - ?b)))) val =
        Some (overwrite xs {nat (int (unat bg)) ..< nat (int (unat (bg + (?e - ?b))))} val)"
    proof (rule std_fill_overwrite)
      show "0 \<le> int (unat bg)" by simp
      show "int (unat bg) \<le> int (unat (bg + (?e - ?b)))"
        using ub ue lt by linarith
      show "int (unat (bg + (?e - ?b))) \<le> int (length xs)"
        using ue top by linarith
    qed
    then have "std_fill xs (uint bg) (uint (bg + (?e - ?b))) val =
        Some (overwrite xs {unat bg ..< unat (bg + (?e - ?b))} val)"
      by (simp only: uint_nat nat_int)
    with unf W' ub ue show ?thesis
      by (simp only:)
  qed
qed

lemma Assign_overwrite:
  "length ranges = length dims \<Longrightarrow> length indices = Level \<Longrightarrow> Level < length dims \<Longrightarrow>
   (\<forall>r \<in> set (drop Level ranges). fst r \<le> snd r) \<Longrightarrow>
   length xs < 2 ^ 64 \<Longrightarrow>
   run_slots dims ranges Level indices \<subseteq> {..<length xs} \<Longrightarrow>
   Assign dims ranges val Level indices xs =
     Some (overwrite xs (run_slots dims ranges Level indices) val)"
proof (induction dims ranges val Level indices xs rule: Assign.induct)
  case (1 dims ranges val Level indices xs)
  let ?D = "length dims"
  let ?b = "fst (ranges ! Level)" and ?e = "snd (ranges ! Level)"
  from "1.prems" have ok: "\<not> (?D = 0 \<or> ?D - 1 < Level)"
    by auto
  from "1.prems" have lv: "Level < length ranges"
    by simp
  then have dr: "drop Level ranges = ranges ! Level # drop (Suc Level) ranges"
    by (simp add: Cons_nth_drop_Suc)
  with "1.prems"(4) have ord: "?b \<le> ?e"
    and ord': "\<forall>r \<in> set (drop (Level + 1) ranges). fst r \<le> snd r"
    by simp_all
  show ?case
  proof (cases "Level = ?D - 1")
    case True
    with ok have "Suc Level = ?D" by simp
    with "1.prems" ord show ?thesis
      by (intro Assign_inner_fill) simp_all
  next
    case False
    let ?W = "\<lambda>i. run_slots dims ranges (Suc Level) (indices @ [i])"
    let ?body = "\<lambda>i ys. Assign dims ranges val (Level + 1) (indices @ [i]) ys"
    let ?P = "\<lambda>j s. s = overwrite xs (\<Union>i \<in> {i. ?b \<le> i \<and> i < j}. ?W i) val"
    have W: "run_slots dims ranges Level indices = (\<Union>i \<in> {i. ?b \<le> i \<and> i < ?e}. ?W i)"
      using lv by (rule run_slots_outer)
    from False "1.prems"(3) have lv1: "Level + 1 < ?D"
      by simp
    have step: "\<exists>t'. ?body j t = Some t' \<and> ?P (j + 1) t'"
      if j: "?b \<le> j" "j < ?e" and t: "?P j t" for j t
    proof -
      from j W "1.prems"(6) have sub: "?W j \<subseteq> {..<length xs}"
        by blast
      from t have lt: "length t = length xs"
        by simp
      have "?body j t = Some (overwrite t (run_slots dims ranges (Level + 1) (indices @ [j])) val)"
        using "1.prems"(1,2,5) lv1 ord' sub lt
        by (intro "1.IH" [OF refl ok False]) simp_all
      moreover have "{i. ?b \<le> i \<and> i < j + 1} = {i. ?b \<le> i \<and> i < j} \<union> {j}"
        using j by (auto simp add: word_lt_inc_iff [OF j(2)])
      ultimately show ?thesis
        using t by (simp add: Un_commute)
    qed
    have "(\<Union>i \<in> {i. ?b \<le> i \<and> i < ?b}. ?W i) = {}"
      by auto
    then have "?P ?b xs"
      by (simp only: overwrite_empty)
    from for_loop_rule [of ?b ?e ?P xs ?body, OF ord this step]
    obtain s' where "for_loop ?b ?e ?body xs = Some s'" and "?P ?e s'"
      by blast
    with W ok False show ?thesis
      by (subst Assign.simps) (simp add: Let_def)
  qed
qed

section \<open>Index tuples inside an array without wrap-around\<close>

lemma unat_prod_list:
  "prod_list (map unat ws) < 2 ^ 64 \<Longrightarrow> unat (prod_list ws :: size_t) = prod_list (map unat ws)"
proof -
  assume "prod_list (map unat ws) < 2 ^ 64"
  then have "unat (word_of_nat (prod_list (map unat ws)) :: size_t) = prod_list (map unat ws)"
    by (rule unat_word_of_nat_small)
  then show ?thesis
    by (simp only: prod_list_unat)
qed

lemma invariant_length:
  assumes "invariant self" and "no_overflow (d_dimensions self)"
  shows "d_dimensions self \<noteq> []"
    and "length (d_data self) = prod_list (map unat (d_dimensions self))"
    and "length (d_data self) < 2 ^ 64"
proof -
  from assms(1) show ne: "d_dimensions self \<noteq> []"
    by (auto simp add: invariant_def)
  with assms(1) have "length (d_data self) = unat (prod_list (d_dimensions self))"
    by (simp add: invariant_def product_prod_list)
  with assms(2) show "length (d_data self) = prod_list (map unat (d_dimensions self))"
    by (simp add: no_overflow_def unat_prod_list)
  with assms(2) show "length (d_data self) < 2 ^ 64"
    by (simp add: no_overflow_def)
qed

lemma valid_index_nat:
  "valid_index dims idx \<Longrightarrow> list_all2 (<) (map unat idx) (map unat dims)"
  by (simp add: valid_index_def list_all2_map1 list_all2_map2 flip: word_less_nat_alt)

lemma indexMap_valid:
  assumes "dims \<noteq> []" and "no_overflow dims" and "valid_index dims idx"
  shows "\<exists>w. indexMap dims idx = Some w \<and>
    unat w = offset_nat (map unat dims) (map unat idx) \<and>
    unat w < prod_list (map unat dims)"
proof -
  from assms(3) have len: "length idx = length dims"
    by (simp add: valid_index_def list_all2_lengthD)
  with assms(1) have "idx \<noteq> []"
    by auto
  with len have "indexMap dims idx =
      Some (word_of_nat (offset_nat (map unat (drop (length dims - length idx) dims)) (map unat idx)))"
    by (intro indexMap_offset_nat) simp_all
  with len have im: "indexMap dims idx =
      Some (word_of_nat (offset_nat (map unat dims) (map unat idx)))"
    by simp
  have bound: "offset_nat (map unat dims) (map unat idx) < prod_list (map unat dims)"
    using assms(3) by (intro offset_nat_bound valid_index_nat)
  with assms(2) have "offset_nat (map unat dims) (map unat idx) < 2 ^ 64"
    by (simp add: no_overflow_def)
  then have "unat (word_of_nat (offset_nat (map unat dims) (map unat idx)) :: size_t) =
      offset_nat (map unat dims) (map unat idx)"
    by (rule unat_word_of_nat_small)
  with im bound show ?thesis
    by simp
qed

lemma indexMap_valid_inj:
  assumes "dims \<noteq> []" and "no_overflow dims"
    and "valid_index dims idx" and "valid_index dims idx'"
    and "indexMap dims idx = Some w" and "indexMap dims idx' = Some w'" and "unat w = unat w'"
  shows "idx = idx'"
proof -
  from indexMap_valid [OF assms(1,2,3)] assms(5)
  have "unat w = offset_nat (map unat dims) (map unat idx)" by auto
  moreover from indexMap_valid [OF assms(1,2,4)] assms(6)
  have "unat w' = offset_nat (map unat dims) (map unat idx')" by auto
  ultimately have "offset_nat (map unat dims) (map unat idx) =
      offset_nat (map unat dims) (map unat idx')"
    using assms(7) by simp
  with assms(3,4) have "map unat idx = map unat idx'"
    by (intro offset_nat_inj [of _ "map unat dims"] valid_index_nat)
  then show ?thesis
    by (simp add: inj_map_eq_map [OF inj_onI] word_unat_eq_iff)
qed

section \<open>An array whose dimension product wraps around\<close>

lemma wide_made: "makeMultiArray (0 :: nat) wide_dims = Some wide_array"
  by (simp add: makeMultiArray_def wide_dims_def wide_array_def)

lemma wide_idx: "indexMap wide_dims [4294967296, 0] = Some 0 \<and> indexMap wide_dims [0, 0] = Some 0"
  by (simp add: wide_dims_def fac_loop.simps)

lemma wide_invariant: "invariant wide_array"
  by (simp add: invariant_def wide_array_def wide_dims_def)

lemma wide_length: "length wide_dims = 2"
  by (simp add: wide_dims_def)

lemma std_fill_one:
  "0 < length xs \<Longrightarrow> std_fill xs 0 1 v = Some (xs[0 := v])"
  by (subst std_fill.simps) simp

lemma wide_Assign_alias:
  assumes "0 < length xs"
  shows "Assign wide_dims [(4294967296, 4294967297), (0, 1)] v 0 [] xs = Some (xs[0 := v])"
proof -
  let ?r = "[(4294967296, 4294967297), (0, 1)] :: (size_t \<times> size_t) list"
  have inner: "Assign wide_dims ?r v (Suc 0) [4294967296] xs = Some (xs[0 := v])"
    using assms wide_idx
    by (subst Assign.simps) (simp add: wide_length Let_def std_fill_one)
  have "Assign wide_dims ?r v 0 [] xs =
      for_loop 4294967296 4294967297 (\<lambda>i ys. Assign wide_dims ?r v (Suc 0) [i] ys) xs"
    by (subst Assign.simps) (simp add: wide_length Let_def)
  also have "\<dots> = for_loop (4294967296 + 1) 4294967297
      (\<lambda>i ys. Assign wide_dims ?r v (Suc 0) [i] ys) (xs[0 := v])"
    by (subst for_loop_step) (simp_all add: inner)
  also have "\<dots> = Some (xs[0 := v])"
    by simp
  finally show ?thesis .
qed

section \<open>The offset as a sum over the axes\<close>

lemma offset_nat_sum:
  "length is = length ds \<Longrightarrow>
   offset_nat ds is = (\<Sum>k < length ds. is ! k * prod_list (drop (Suc k) ds))"
proof (induction "is" ds rule: list_induct2)
  case Nil
  then show ?case by simp
next
  case (Cons i "is" d ds)
  let ?f = "\<lambda>k. (i # is) ! k * prod_list (drop (Suc k) (d # ds))"
  have "(\<Sum>k < length (d # ds). ?f k) = (\<Sum>k < Suc (length ds). ?f k)"
    by simp
  also have "\<dots> = ?f 0 + (\<Sum>k < length ds. ?f (Suc k))"
    by (rule sum.lessThan_Suc_shift)
  also have "\<dots> = i * prod_list ds + (\<Sum>k < length ds. is ! k * prod_list (drop (Suc k) ds))"
    by simp
  finally show ?case
    using Cons.IH by simp
qed

lemma offset_nat_unat_sum:
  assumes "length idx = length dims"
  shows "offset_nat (map unat dims) (map unat idx) =
    (\<Sum>k < length dims. unat (idx ! k) * prod_list (map unat (drop (Suc k) dims)))"
proof -
  have "offset_nat (map unat dims) (map unat idx) =
      (\<Sum>k < length (map unat dims).
         map unat idx ! k * prod_list (drop (Suc k) (map unat dims)))"
    using assms by (intro offset_nat_sum) simp
  also have "\<dots> = (\<Sum>k < length dims. unat (idx ! k) * prod_list (map unat (drop (Suc k) dims)))"
    using assms by (intro sum.cong) (simp_all add: drop_map)
  finally show ?thesis .
qed

lemma unat_prod_list_mod:
  "unat (prod_list ws :: size_t) = prod_list (map unat ws) mod 2 ^ 64"
proof -
  have "unat (word_of_nat (prod_list (map unat ws)) :: size_t) =
      prod_list (map unat ws) mod 2 ^ LENGTH(64)"
    by (rule unat_of_nat)
  then show ?thesis
    by (simp add: prod_list_unat)
qed

lemma offset_nat_tail_sum:
  assumes "length js \<le> length dims"
  shows "offset_nat (map unat (drop (length dims - length js) dims)) (map unat js) =
    (\<Sum>m < length js.
       unat (js ! m) * prod_list (map unat (drop (length dims - length js + m + 1) dims)))"
proof -
  let ?ds = "map unat (drop (length dims - length js) dims)"
  from assms have len: "length (map unat js) = length ?ds"
    by simp
  have "offset_nat ?ds (map unat js) =
      (\<Sum>m < length ?ds. map unat js ! m * prod_list (drop (Suc m) ?ds))"
    using len by (rule offset_nat_sum)
  also have "\<dots> = (\<Sum>m < length js.
      unat (js ! m) * prod_list (map unat (drop (length dims - length js + m + 1) dims)))"
  proof (rule sum.cong)
    show "{..<length ?ds} = {..<length js}"
      using assms by simp
  next
    fix m
    assume "m \<in> {..<length js}"
    then have m: "m < length js"
      by simp
    have "drop (Suc m) ?ds = map unat (drop (Suc m + (length dims - length js)) dims)"
      by (simp add: drop_map)
    also have "Suc m + (length dims - length js) = length dims - length js + m + 1"
      by simp
    finally show "map unat js ! m * prod_list (drop (Suc m) ?ds) =
        unat (js ! m) * prod_list (map unat (drop (length dims - length js + m + 1) dims))"
      using m by simp
  qed
  finally show ?thesis .
qed

section \<open>Range tables inside the array\<close>

lemma valid_ranges_ordered:
  "valid_ranges dims ranges \<Longrightarrow> \<forall>r \<in> set ranges. fst r \<le> snd r"
  unfolding valid_ranges_def by (induction rule: list_all2_induct) simp_all

lemma box_inside:
  assumes "valid_ranges dims ranges"
    and "list_all2 (\<lambda>j r. unat (fst r) \<le> j \<and> j < unat (snd r)) js ranges"
  shows "list_all2 (<) js (map unat dims)"
proof -
  from assms(1) have "list_all2 (\<lambda>r n. unat (snd r) \<le> n) ranges (map unat dims)"
    by (simp add: valid_ranges_def list_all2_map2 word_le_nat_alt list_all2_conv_all_nth)
  with assms(2) show ?thesis
    by (rule list_all2_trans [rotated]) simp
qed

lemma in_box_nat:
  "in_box ranges idx \<longleftrightarrow>
   list_all2 (\<lambda>j r. unat (fst r) \<le> j \<and> j < unat (snd r)) (map unat idx) ranges"
  by (simp add: in_box_def list_all2_map1 word_le_nat_alt word_less_nat_alt)

lemma run_slots_top:
  "run_slots dims ranges 0 [] =
   {offset_nat (map unat dims) js | js.
      list_all2 (\<lambda>j r. unat (fst r) \<le> j \<and> j < unat (snd r)) js ranges}"
  by (simp add: run_slots_def)

lemma run_slots_valid:
  assumes "valid_ranges dims ranges"
  shows "run_slots dims ranges 0 [] \<subseteq> {..<prod_list (map unat dims)}"
  using box_inside [OF assms] by (auto simp add: run_slots_top intro: offset_nat_bound)

lemma run_slots_member:
  assumes "valid_ranges dims ranges" and "valid_index dims idx"
  shows "offset_nat (map unat dims) (map unat idx) \<in> run_slots dims ranges 0 [] \<longleftrightarrow>
    in_box ranges idx"
proof
  assume "in_box ranges idx"
  then show "offset_nat (map unat dims) (map unat idx) \<in> run_slots dims ranges 0 []"
    by (auto simp add: run_slots_top in_box_nat)
next
  assume "offset_nat (map unat dims) (map unat idx) \<in> run_slots dims ranges 0 []"
  then obtain js where eq: "offset_nat (map unat dims) js = offset_nat (map unat dims) (map unat idx)"
    and js: "list_all2 (\<lambda>j r. unat (fst r) \<le> j \<and> j < unat (snd r)) js ranges"
    by (auto simp add: run_slots_top)
  from box_inside [OF assms(1) js] valid_index_nat [OF assms(2)] eq
  have "js = map unat idx"
    by (rule offset_nat_inj)
  with js show "in_box ranges idx"
    by (simp add: in_box_nat)
qed

lemma Assign_valid:
  assumes "invariant self" and "no_overflow (d_dimensions self)"
    and "valid_ranges (d_dimensions self) ranges"
  shows "Assign (d_dimensions self) ranges v 0 [] (d_data self) =
    Some (overwrite (d_data self) (run_slots (d_dimensions self) ranges 0 []) v)"
proof (rule Assign_overwrite)
  let ?dims = "d_dimensions self"
  note inv = invariant_length [OF assms(1,2)]
  show "length ranges = length ?dims"
    using assms(3) by (simp add: valid_ranges_def list_all2_lengthD)
  show "0 < length ?dims"
    using inv(1) by simp
  show "\<forall>r \<in> set (drop 0 ranges). fst r \<le> snd r"
    using valid_ranges_ordered [OF assms(3)] by simp
  show "run_slots ?dims ranges 0 [] \<subseteq> {..<length (d_data self)}"
    using run_slots_valid [OF assms(3)] inv(2) by simp
  show "length (d_data self) < 2 ^ 64"
    by (rule inv(3))
qed simp

lemma assign_valid:
  assumes "invariant self" and "no_overflow (d_dimensions self)"
    and "valid_ranges (d_dimensions self) ranges"
  shows "assign self ranges v =
    Some (self\<lparr>d_data := overwrite (d_data self) (run_slots (d_dimensions self) ranges 0 []) v\<rparr>)"
  using Assign_valid [OF assms, of v] by (simp add: assign_def)

section \<open>Consequences of the class invariant\<close>

lemma invariant_nonempty: "invariant self \<Longrightarrow> d_dimensions self \<noteq> []"
  by (auto simp add: invariant_def)

lemma invariant_small: "invariant self \<Longrightarrow> length (d_data self) < 2 ^ 64"
  using unat_size_t by (auto simp add: invariant_def split: option.splits)

lemma small_slots: "run_slots [2, 3] [(0, 1), (2, 5)] 0 [] = {2, 3, 4}"
proof -
  have "run_slots [2, 3] [(0, 1), (2, 5)] 0 [] = {j. 2 \<le> j \<and> j < (5 :: nat)}"
  proof (rule set_eqI, rule iffI)
    fix p
    assume "p \<in> run_slots [2, 3] [(0, 1), (2, 5)] 0 []"
    then show "p \<in> {j. 2 \<le> j \<and> j < (5 :: nat)}"
      by (auto simp add: run_slots_top list_all2_Cons2)
  next
    fix p
    assume "p \<in> {j. 2 \<le> j \<and> j < (5 :: nat)}"
    then have "p = offset_nat (map unat [2, 3 :: size_t]) [0, p] \<and>
        list_all2 (\<lambda>j r. unat (fst r) \<le> j \<and> j < unat (snd r)) [0, p]
          [(0, 1), (2, 5 :: size_t)]"
      by simp
    then show "p \<in> run_slots [2, 3] [(0, 1), (2, 5)] 0 []"
      unfolding run_slots_top by blast
  qed
  also have "\<dots> = {2, 3, 4}"
    by auto
  finally show ?thesis .
qed

section \<open>The size of a box and the counter\<close>

lemma unat_box_size_mod:
  assumes "valid_ranges dims ranges"
  shows "unat (box_size ranges) =
    prod_list (map (\<lambda>r. unat (snd r) - unat (fst r)) ranges) mod 2 ^ 64"
proof -
  have eq: "map unat (map (\<lambda>r. snd r - fst r) ranges) =
      map (\<lambda>r. unat (snd r) - unat (fst r)) ranges"
    using valid_ranges_ordered [OF assms] by (simp add: unat_sub)
  have "unat (prod_list (map (\<lambda>r. snd r - fst r) ranges)) =
      prod_list (map unat (map (\<lambda>r. snd r - fst r) ranges)) mod 2 ^ 64"
    by (rule unat_prod_list_mod)
  with eq show ?thesis
    by (simp only: box_size_def)
qed

lemma assign_debug_counter_word:
  fixes self :: "'a MultiArray_debug"
  assumes "length ranges = length (d_dimensions self)"
    and "assign_debug self ranges v = Some self'"
  shows "counter self' = counter self + box_size ranges"
proof -
  have "Assign_debug (d_dimensions self) ranges v 0 [] (d_data self, counter self) =
      map_option (\<lambda>ys. (ys, counter self + box_size (drop 0 ranges)))
        (Assign (d_dimensions self) ranges v 0 [] (d_data self))"
    using assms(1) by (rule Assign_debug_eq)
  with assms(2) show ?thesis
    by (auto simp add: assign_debug_def split: option.splits)
qed

section \<open>Lengths under the other two variants, and the uniform fill\<close>

lemma Assign_debug_length:
  "Assign_debug dims ranges val Level indices st = Some st' \<Longrightarrow>
   length (fst st') = length (fst st)"
proof (induction dims ranges val Level indices st arbitrary: st' rule: Assign_debug.induct)
  case (1 dims ranges val Level indices st)
  let ?D = "length dims"
  from "1.prems" have ok: "\<not> (?D = 0 \<or> ?D - 1 < Level)"
    by (subst (asm) Assign_debug.simps) (simp add: Let_def split: if_splits)
  show ?case
  proof (cases "Level = ?D - 1")
    case True
    with "1.prems" ok show ?thesis
      by (subst (asm) Assign_debug.simps)
        (auto simp add: Let_def split: option.splits dest: std_fill_length)
  next
    case False
    let ?body = "\<lambda>i st'. Assign_debug dims ranges val (Level + 1) (indices @ [i]) st'"
    from "1.prems" ok False
    have loop: "for_loop (fst (ranges ! Level)) (snd (ranges ! Level)) ?body st = Some st'"
      by (subst (asm) Assign_debug.simps) (simp add: Let_def)
    have "\<And>i s s'. length (fst s) = length (fst st) \<Longrightarrow> ?body i s = Some s' \<Longrightarrow>
        length (fst s') = length (fst st)"
      using "1.IH" [OF refl ok False] by simp
    from for_loop_preserves [of "\<lambda>s. length (fst s) = length (fst st)" ?body, OF this _ loop]
    show ?thesis by simp
  qed
qed

lemma Assign_iter_length:
  "Assign_iter dims ranges val Level MaxLevel indices xs = Some ys \<Longrightarrow> length ys = length xs"
proof (induction dims ranges val Level MaxLevel indices xs arbitrary: ys rule: Assign_iter.induct)
  case (1 dims ranges val Level MaxLevel indices xs)
  from "1.prems" have ok: "\<not> MaxLevel < Level"
    by (subst (asm) Assign_iter.simps) (simp add: Let_def split: if_splits)
  show ?case
  proof (cases "Level = MaxLevel")
    case True
    with "1.prems" show ?thesis
      by (subst (asm) Assign_iter.simps)
        (auto simp add: Let_def split: option.splits dest: std_fill_length)
  next
    case False
    let ?body = "\<lambda>i ys. Assign_iter dims ranges val (Level + 1) MaxLevel (indices @ [i]) ys"
    from "1.prems" ok False
    have loop: "for_loop (fst (ranges ! Level)) (snd (ranges ! Level)) ?body xs = Some ys"
      by (subst (asm) Assign_iter.simps) (simp add: Let_def)
    have "\<And>i s s'. length s = length xs \<Longrightarrow> ?body i s = Some s' \<Longrightarrow> length s' = length xs"
      using "1.IH" [OF refl ok False] by simp
    from for_loop_preserves [of "\<lambda>s. length s = length xs" ?body, OF this _ loop]
    show ?thesis by simp
  qed
qed

lemma assign_fill_total:
  "assign_fill self w = Some (self\<lparr>d_data := overwrite (d_data self) {0 ..< length (d_data self)} w\<rparr>)"
proof -
  have "std_fill (d_data self) 0 (int (length (d_data self))) w =
      Some (overwrite (d_data self) {nat 0 ..< nat (int (length (d_data self)))} w)"
    by (rule std_fill_overwrite) simp_all
  then show ?thesis
    by (simp add: assign_fill_def)
qed

lemma Assign_no_dims: "Assign [] ranges v Level indices xs = None"
  by (subst Assign.simps) simp

lemma Assign_debug_no_dims: "Assign_debug [] ranges v Level indices st = None"
  by (subst Assign_debug.simps) simp

lemma prod_list_nat_zero: "(0 :: size_t) \<in> set ws \<Longrightarrow> prod_list (map unat ws) = 0"
  by (induction ws) auto

lemma slot_invariant_data:
  "slot_invariant self \<Longrightarrow> length xs = length (d_data self) \<Longrightarrow>
   slot_invariant (self\<lparr>d_data := xs\<rparr>)"
  by (simp add: slot_invariant_def)

section \<open>Theorems about the index mapping\<close>

text \<open>
  C2, as amended. For \<open>D \<ge> 1\<close>, dimensions whose product does not wrap around and \<open>D\<close>
  indices in range, \<^verbatim>\<open>index\<close> returns the offset that is, as a number, the sum over the axes
  \<open>k\<close> of \<open>index[k]\<close> times the stride of \<open>k\<close>, the product of the dimensions
  \<open>k + 1, \<dots>, D - 1\<close>; the stride of the last axis is \<open>1\<close>, and \<^verbatim>\<open>operator()\<close> accesses the
  element at that offset.
\<close>

theorem index_row_major:
  assumes "idx \<noteq> []" and "valid_index (d_dimensions self) idx"
    and "no_overflow (d_dimensions self)"
  shows "\<exists>off. index self idx = Some off \<and>
    unat off =
      (\<Sum>k < dim self.
         unat (idx ! k) * prod_list (map unat (drop (Suc k) (d_dimensions self)))) \<and>
    prod_list (map unat (drop (Suc (dim self - 1)) (d_dimensions self))) = 1 \<and>
    operator_call self idx =
      (if unat off < length (d_data self) then Some (d_data self ! unat off) else None)"
proof -
  let ?dims = "d_dimensions self"
  from assms(2) have len: "length idx = length ?dims"
    by (simp add: valid_index_def list_all2_lengthD)
  with assms(1) have dne: "?dims \<noteq> []"
    by auto
  from indexMap_valid [OF dne assms(3,2)]
  obtain w where w: "indexMap ?dims idx = Some w"
    and uw: "unat w = offset_nat (map unat ?dims) (map unat idx)"
    by blast
  from uw len have "unat w =
      (\<Sum>k < dim self. unat (idx ! k) * prod_list (map unat (drop (Suc k) ?dims)))"
    by (simp add: offset_nat_unat_sum dim_def)
  moreover from dne have "prod_list (map unat (drop (Suc (dim self - 1)) ?dims)) = 1"
    by (simp add: dim_def)
  ultimately show ?thesis
    using w by (simp add: index_def operator_call_def)
qed

theorem index_row_major_witness:
  "[1, 2, 3 :: size_t] \<noteq> [] \<and> valid_index [2, 3, 4] [1, 2, 3] \<and> no_overflow [2, 3, 4] \<and>
   index \<lparr>d_data = replicate 24 (0 :: nat), d_dimensions = [2, 3, 4]\<rparr> [1, 2, 3] = Some 23 \<and>
   unat (23 :: size_t) = 1 * (3 * 4) + 2 * 4 + 3 * 1"
proof -
  let ?m = "\<lparr>d_data = replicate 24 (0 :: nat), d_dimensions = [2, 3, 4]\<rparr>"
  have a: "[1, 2, 3 :: size_t] \<noteq> []"
    by simp
  have v: "valid_index (d_dimensions ?m) [1, 2, 3]"
    by (simp add: valid_index_def)
  have n: "no_overflow (d_dimensions ?m)"
    by (simp add: no_overflow_def)
  from index_row_major [OF a v n] obtain off where o: "index ?m [1, 2, 3] = Some off"
    and u: "unat off = 1 * (3 * 4) + 2 * 4 + 3 * 1"
    by (auto simp add: dim_def)
  from u have "unat off = unat (23 :: size_t)"
    by simp
  then have "off = 23"
    by (simp only: word_unat_eq_iff)
  with o a v n show ?thesis
    by simp
qed

text \<open>
  Without the condition on the product the claim fails: in the array constructed with the
  sizes \<open>(4294967297, 4294967296)\<close> the index \<open>(4294967296, 0)\<close> is in range and
  \<^verbatim>\<open>index\<close> returns \<open>0\<close>, while the sum \<open>4294967296 * 4294967296 + 0 * 1\<close> is \<open>2 ^ 64\<close>.
\<close>

theorem index_row_major_counterexample:
  "makeMultiArray (0 :: nat) wide_dims = Some wide_array \<and>
   valid_index wide_dims [4294967296, 0] \<and>
   index wide_array [4294967296, 0] = Some 0 \<and>
   offset_nat (map unat wide_dims) (map unat [4294967296, 0 :: size_t]) = 18446744073709551616 \<and>
   unat (4294967296 :: size_t) * unat (4294967296 :: size_t) + unat (0 :: size_t) * 1 =
     18446744073709551616"
  using wide_idx wide_made
  by (simp add: index_def wide_array_def valid_index_def) (simp add: wide_dims_def)

text \<open>
  C10, as amended. \<^verbatim>\<open>index\<close> and \<^verbatim>\<open>operator()\<close> are templates over any argument pack and
  check no arity: for \<open>1 \<le> k \<le> D\<close> arguments \<open>j\<^sub>0, \<dots>, j\<^sub>k\<^sub>-\<^sub>1\<close> the call returns, and the
  offset is the sum over \<open>m < k\<close> of \<open>j\<^sub>m\<close> times the product of the dimensions
  \<open>D - k + m + 1, \<dots>, D - 1\<close>, taken modulo \<open>2 ^ 64\<close>: the sum and the products are computed in
  \<^verbatim>\<open>std::size_t\<close>. This is the row-major offset of the arguments read as indices into the
  last \<open>k\<close> axes, reduced modulo \<open>2 ^ 64\<close>; \<^verbatim>\<open>operator()\<close> accesses the element at that offset.
\<close>

theorem index_partial_arity:
  "js \<noteq> [] \<Longrightarrow> length js \<le> dim self \<Longrightarrow>
   (\<exists>off. index self js = Some off \<and>
      unat off =
        (\<Sum>m < length js.
           unat (js ! m) *
           prod_list (map unat (drop (dim self - length js + m + 1) (d_dimensions self))))
        mod 2 ^ 64 \<and>
      operator_call self js =
        (if unat off < length (d_data self) then Some (d_data self ! unat off) else None))"
proof -
  assume ne: "js \<noteq> []" and len: "length js \<le> dim self"
  let ?dims = "d_dimensions self"
  let ?n = "offset_nat (map unat (drop (length ?dims - length js) ?dims)) (map unat js)"
  from len have len': "length js \<le> length ?dims"
    by (simp add: dim_def)
  with ne have im: "indexMap ?dims js = Some (word_of_nat ?n)"
    by (rule indexMap_offset_nat)
  have "unat (word_of_nat ?n :: size_t) = ?n mod 2 ^ LENGTH(64)"
    by (rule unat_of_nat)
  then have "unat (word_of_nat ?n :: size_t) =
      (\<Sum>m < length js.
         unat (js ! m) * prod_list (map unat (drop (dim self - length js + m + 1) ?dims)))
      mod 2 ^ 64"
    using offset_nat_tail_sum [OF len'] by (simp add: dim_def)
  with im show ?thesis
    by (simp add: index_def operator_call_def)
qed

theorem index_partial_arity_witness:
  "[2, 3 :: size_t] \<noteq> [] \<and>
   length [2, 3 :: size_t] \<le> dim \<lparr>d_data = replicate 24 (0 :: nat), d_dimensions = [2, 3, 4]\<rparr> \<and>
   index \<lparr>d_data = replicate 24 (0 :: nat), d_dimensions = [2, 3, 4]\<rparr> [2, 3] = Some 11 \<and>
   unat (11 :: size_t) = (2 * 4 + 3 * 1) mod 2 ^ 64"
proof -
  let ?m = "\<lparr>d_data = replicate 24 (0 :: nat), d_dimensions = [2, 3, 4]\<rparr>"
  have a: "[2, 3 :: size_t] \<noteq> []"
    by simp
  have b: "length [2, 3 :: size_t] \<le> dim ?m"
    by (simp add: dim_def)
  from index_partial_arity [OF a b] obtain off where o: "index ?m [2, 3] = Some off"
    and u: "unat off = (2 * 4 + 3 * 1) mod 2 ^ 64"
    by (auto simp add: dim_def)
  from u have "unat off = unat (11 :: size_t)"
    by simp
  then have "off = 11"
    by (simp only: word_unat_eq_iff)
  with o a b show ?thesis
    by simp
qed

text \<open>
  Without the reduction the claim fails: for the dimensions \<open>(2, 3)\<close> the call
  \<^verbatim>\<open>index(6148914691236517206, 1)\<close> returns \<open>3\<close>, while the sum
  \<open>6148914691236517206 * 3 + 1 * 1\<close> is \<open>2 ^ 64 + 3\<close>.
\<close>

theorem index_partial_arity_counterexample:
  "index \<lparr>d_data = replicate 6 (0 :: nat), d_dimensions = [2, 3]\<rparr>
     [6148914691236517206, 1] = Some 3 \<and>
   offset_nat (map unat [2, 3 :: size_t]) (map unat [6148914691236517206, 1 :: size_t]) =
     18446744073709551619 \<and>
   unat (6148914691236517206 :: size_t) * unat (3 :: size_t) + unat (1 :: size_t) * 1 =
     18446744073709551619"
  by (simp add: index_def fac_loop.simps)

text \<open>
  C3, as amended. For \<open>D \<ge> 1\<close> and dimensions whose product does not wrap around, the
  index mapping is a bijection from the valid coordinate tuples onto \<open>[0, total)\<close>, where
  \<open>total\<close> is what \<^verbatim>\<open>product\<close> returns, the product of the dimensions.
\<close>

theorem index_bijection:
  assumes "dims \<noteq> []" and "no_overflow dims"
  shows "product dims = Some (prod_list dims) \<and>
    unat (prod_list dims) = prod_list (map unat dims) \<and>
    bij_betw (\<lambda>idx. the (indexMap dims idx)) {idx. valid_index dims idx}
      {n. n < prod_list dims}"
proof -
  let ?f = "\<lambda>idx. the (indexMap dims idx)"
  let ?nds = "map unat dims"
  from assms(2) have total: "unat (prod_list dims) = prod_list ?nds"
    by (simp add: no_overflow_def unat_prod_list)
  have inj: "inj_on ?f {idx. valid_index dims idx}"
  proof (rule inj_onI)
    fix a b
    assume a: "a \<in> {idx. valid_index dims idx}" and b: "b \<in> {idx. valid_index dims idx}"
      and eq: "?f a = ?f b"
    from indexMap_valid [OF assms] a obtain wa where wa: "indexMap dims a = Some wa"
      by blast
    from indexMap_valid [OF assms] b obtain wb where wb: "indexMap dims b = Some wb"
      by blast
    from eq wa wb have "unat wa = unat wb"
      by simp
    with a b wa wb show "a = b"
      by (intro indexMap_valid_inj [OF assms, of a b wa wb]) simp_all
  qed
  have img: "?f ` {idx. valid_index dims idx} = {n. n < prod_list dims}"
  proof (rule set_eqI, rule iffI)
    fix n
    assume "n \<in> ?f ` {idx. valid_index dims idx}"
    then obtain idx where v: "valid_index dims idx" and n: "n = ?f idx"
      by blast
    from indexMap_valid [OF assms v] n have "unat n < prod_list ?nds"
      by auto
    with total show "n \<in> {n. n < prod_list dims}"
      by (simp add: word_less_nat_alt)
  next
    fix n
    assume "n \<in> {n. n < prod_list dims}"
    with total have "unat n < prod_list ?nds"
      by (simp add: word_less_nat_alt)
    from offset_nat_surj [OF this] obtain ns where v: "list_all2 (<) ns ?nds"
      and o: "offset_nat ?nds ns = unat n"
      by blast
    let ?idx = "map word_of_nat ns :: size_t list"
    have small: "list_all2 (\<lambda>i d. i < 2 ^ 64) ns dims"
      using v unat_size_t
      by (auto simp add: list_all2_map2 elim!: list_all2_mono intro: less_trans)
    then have rt: "map unat ?idx = ns"
      by (induction rule: list_all2_induct) (simp_all add: unat_word_of_nat_small)
    with v have "list_all2 (<) (map unat ?idx) ?nds"
      by (simp only:)
    then have vi: "valid_index dims ?idx"
      by (simp add: valid_index_def list_all2_map1 list_all2_map2 flip: word_less_nat_alt)
    from indexMap_valid [OF assms vi] rt o have "?f ?idx = n"
      by (auto simp add: word_unat_eq_iff)
    with vi show "n \<in> ?f ` {idx. valid_index dims idx}"
      by blast
  qed
  from inj img have "bij_betw ?f {idx. valid_index dims idx} {n. n < prod_list dims}"
    by (simp add: bij_betw_def)
  with total assms(1) show ?thesis
    by (simp add: product_prod_list)
qed

theorem index_bijection_witness:
  "[2, 3, 4 :: size_t] \<noteq> [] \<and> no_overflow [2, 3, 4] \<and>
   product [2, 3, 4] = Some 24 \<and>
   bij_betw (\<lambda>idx. the (indexMap [2, 3, 4] idx)) {idx. valid_index [2, 3, 4] idx} {n. n < 24}"
proof -
  have n: "no_overflow [2, 3, 4]"
    by (simp add: no_overflow_def)
  from index_bijection [OF _ n] n show ?thesis
    by simp
qed

text \<open>
  Without the condition on the product the claim fails: for the dimensions
  \<open>(4294967297, 4294967296)\<close>, whose product wraps to \<open>4294967296\<close>, the valid tuples
  \<open>(4294967296, 0)\<close> and \<open>(0, 0)\<close> both map to offset \<open>0\<close>.
\<close>

theorem index_bijection_counterexample:
  "product wide_dims = Some 4294967296 \<and>
   valid_index wide_dims [4294967296, 0] \<and> valid_index wide_dims [0, 0] \<and>
   [4294967296, 0] \<noteq> ([0, 0] :: size_t list) \<and>
   indexMap wide_dims [4294967296, 0] = Some 0 \<and> indexMap wide_dims [0, 0] = Some 0"
  using wide_idx by (simp add: valid_index_def) (simp add: wide_dims_def)

section \<open>Element access\<close>

text \<open>
  C6, as amended. On an array that satisfies the class invariant and whose dimension product
  does not wrap around, writing \<open>v\<close> through \<^verbatim>\<open>operator()\<close> at a valid coordinate succeeds,
  reading the same coordinate then returns \<open>v\<close>, and the value read at every other valid
  coordinate is unchanged.
\<close>

theorem write_read_roundtrip:
  assumes "invariant self" and "no_overflow (d_dimensions self)"
    and "valid_index (d_dimensions self) idx"
  shows "\<exists>self'. operator_call_store self idx v = Some self' \<and>
    operator_call self' idx = Some v \<and>
    (\<forall>idx'. valid_index (d_dimensions self) idx' \<longrightarrow> idx' \<noteq> idx \<longrightarrow>
       operator_call self' idx' = operator_call self idx')"
proof -
  let ?dims = "d_dimensions self"
  note inv = invariant_length [OF assms(1,2)]
  from indexMap_valid [OF inv(1) assms(2,3)] inv(2)
  obtain w where w: "indexMap ?dims idx = Some w" and wl: "unat w < length (d_data self)"
    by auto
  let ?self' = "self\<lparr>d_data := (d_data self)[unat w := v]\<rparr>"
  from w wl have st: "operator_call_store self idx v = Some ?self'"
    by (simp add: operator_call_store_def)
  from w wl have rd: "operator_call ?self' idx = Some v"
    by (simp add: operator_call_def)
  have other: "operator_call ?self' idx' = operator_call self idx'"
    if v': "valid_index ?dims idx'" and ne: "idx' \<noteq> idx" for idx'
  proof -
    from indexMap_valid [OF inv(1) assms(2) v'] inv(2)
    obtain w' where w': "indexMap ?dims idx' = Some w'" and wl': "unat w' < length (d_data self)"
      by auto
    have "unat w \<noteq> unat w'"
      using indexMap_valid_inj [OF inv(1) assms(2,3) v' w w'] ne by blast
    with w' wl' show ?thesis
      by (simp add: operator_call_def)
  qed
  from st rd other show ?thesis
    by blast
qed

theorem write_read_roundtrip_witness:
  "invariant \<lparr>d_data = [1, 2, 3, 4, 5, 6 :: nat], d_dimensions = [2, 3]\<rparr> \<and>
   no_overflow [2, 3] \<and> valid_index [2, 3] [1, 0] \<and>
   (\<exists>self'. operator_call_store \<lparr>d_data = [1, 2, 3, 4, 5, 6 :: nat], d_dimensions = [2, 3]\<rparr> [1, 0] 9 = Some self' \<and>
      operator_call self' [1, 0] = Some 9 \<and>
      (\<forall>idx'. valid_index [2, 3] idx' \<longrightarrow> idx' \<noteq> [1, 0] \<longrightarrow>
         operator_call self' idx' =
         operator_call \<lparr>d_data = [1, 2, 3, 4, 5, 6 :: nat], d_dimensions = [2, 3]\<rparr> idx'))"
proof -
  have i: "invariant \<lparr>d_data = [1, 2, 3, 4, 5, 6 :: nat], d_dimensions = [2, 3]\<rparr>"
    by (simp add: invariant_def)
  have n: "no_overflow (d_dimensions \<lparr>d_data = [1, 2, 3, 4, 5, 6 :: nat], d_dimensions = [2, 3]\<rparr>)"
    by (simp add: no_overflow_def)
  have v: "valid_index (d_dimensions \<lparr>d_data = [1, 2, 3, 4, 5, 6 :: nat], d_dimensions = [2, 3]\<rparr>) [1, 0]"
    by (simp add: valid_index_def)
  from write_read_roundtrip [OF i n v, of 9] i n v show ?thesis
    by simp
qed

text \<open>
  Without the condition on the product the claim fails: in the array constructed with the
  sizes \<open>(4294967297, 4294967296)\<close> the valid coordinates \<open>(4294967296, 0)\<close> and \<open>(0, 0)\<close>
  share slot \<open>0\<close>, so a write at the first changes what is read at the second.
\<close>

theorem write_read_roundtrip_counterexample:
  "makeMultiArray (0 :: nat) wide_dims = Some wide_array \<and>
   valid_index wide_dims [4294967296, 0] \<and> valid_index wide_dims [0, 0] \<and>
   operator_call wide_array [0, 0] = Some 0 \<and>
   operator_call_store wide_array [4294967296, 0] 7 =
     Some (wide_array\<lparr>d_data := (d_data wide_array)[0 := 7]\<rparr>) \<and>
   operator_call (wide_array\<lparr>d_data := (d_data wide_array)[0 := 7]\<rparr>) [0, 0] = Some 7"
  using wide_idx
  by (simp add: wide_made operator_call_def operator_call_store_def wide_array_def
      valid_index_def) (simp add: wide_dims_def)

section \<open>Range fill\<close>

text \<open>
  C1, as amended. For \<open>D \<ge> 1\<close>, an array that satisfies the class invariant and whose
  dimension product does not wrap around, every value \<open>v\<close> and every range table with
  \<open>0 \<le> begin\<^sub>k \<le> end\<^sub>k \<le> dimensions[k]\<close> for all \<open>k\<close>: \<^verbatim>\<open>assign(ranges, v)\<close> returns normally,
  keeps the dimensions, writes \<open>v\<close> into exactly the elements whose coordinate tuple has
  \<open>begin\<^sub>k \<le> i\<^sub>k < end\<^sub>k\<close> for all \<open>k\<close>, and leaves every other element at its prior value.
  The witness is the instance of the specification: dimensions \<open>(3, 3)\<close> and the table
  \<open>{[0,2), [1,3)}\<close>.
\<close>

theorem assign_range_fill:
  assumes "invariant self" and "no_overflow (d_dimensions self)"
    and "valid_ranges (d_dimensions self) ranges"
  shows "\<exists>self'. assign self ranges v = Some self' \<and>
    d_dimensions self' = d_dimensions self \<and>
    (\<forall>idx. valid_index (d_dimensions self) idx \<longrightarrow>
       operator_call self' idx = (if in_box ranges idx then Some v else operator_call self idx))"
proof -
  let ?dims = "d_dimensions self"
  let ?W = "run_slots ?dims ranges 0 []"
  let ?self' = "self\<lparr>d_data := overwrite (d_data self) ?W v\<rparr>"
  note inv = invariant_length [OF assms(1,2)]
  have cell: "operator_call ?self' idx =
      (if in_box ranges idx then Some v else operator_call self idx)"
    if vi: "valid_index ?dims idx" for idx
  proof -
    from indexMap_valid [OF inv(1) assms(2) vi] inv(2)
    obtain w where w: "indexMap ?dims idx = Some w"
      and uw: "unat w = offset_nat (map unat ?dims) (map unat idx)"
      and wl: "unat w < length (d_data self)"
      by auto
    from run_slots_member [OF assms(3) vi] uw have "unat w \<in> ?W \<longleftrightarrow> in_box ranges idx"
      by simp
    with w wl show ?thesis
      by (simp add: operator_call_def)
  qed
  from assign_valid [OF assms] cell show ?thesis
    by simp
qed

theorem assign_range_fill_witness:
  "invariant \<lparr>d_data = [10, 11, 12, 13, 14, 15, 16, 17, 18 :: nat], d_dimensions = [3, 3]\<rparr> \<and>
   no_overflow [3, 3] \<and> valid_ranges [3, 3] [(0, 2), (1, 3)] \<and>
   assign \<lparr>d_data = [10, 11, 12, 13, 14, 15, 16, 17, 18 :: nat], d_dimensions = [3, 3]\<rparr>
     [(0, 2), (1, 3)] 9 =
     Some \<lparr>d_data = [10, 9, 9, 13, 9, 9, 16, 17, 18], d_dimensions = [3, 3]\<rparr> \<and>
   map (operator_call \<lparr>d_data = [10, 9, 9, 13, 9, 9, 16, 17, 18 :: nat], d_dimensions = [3, 3]\<rparr>)
     [[0, 1], [0, 2], [1, 1], [1, 2]] = [Some 9, Some 9, Some 9, Some 9] \<and>
   map (operator_call \<lparr>d_data = [10, 9, 9, 13, 9, 9, 16, 17, 18 :: nat], d_dimensions = [3, 3]\<rparr>)
     [[0, 0], [1, 0], [2, 0], [2, 1], [2, 2]] =
   map (operator_call \<lparr>d_data = [10, 11, 12, 13, 14, 15, 16, 17, 18 :: nat], d_dimensions = [3, 3]\<rparr>)
     [[0, 0], [1, 0], [2, 0], [2, 1], [2, 2]]"
proof -
  let ?m = "\<lparr>d_data = [10, 11, 12, 13, 14, 15, 16, 17, 18 :: nat], d_dimensions = [3, 3]\<rparr>"
  have i: "invariant ?m"
    by (simp add: invariant_def)
  have n: "no_overflow (d_dimensions ?m)"
    by (simp add: no_overflow_def)
  have r: "valid_ranges (d_dimensions ?m) [(0, 2), (1, 3)]"
    by (simp add: valid_ranges_def)
  have e: "assign ?m [(0, 2), (1, 3)] 9 =
      Some \<lparr>d_data = [10, 9, 9, 13, 9, 9, 16, 17, 18], d_dimensions = [3, 3]\<rparr>"
    by code_simp
  from assign_range_fill [OF i n r, of 9] i n r e show ?thesis
    by (simp add: valid_index_def in_box_def)
qed

text \<open>
  Without the condition on the product the claim fails: in the array constructed with the
  sizes \<open>(4294967297, 4294967296)\<close> the table \<open>{[4294967296, 4294967297), [0, 1)}\<close> is
  valid, and assigning \<open>9\<close> over it changes the element at \<open>(0, 0)\<close>, which is outside
  the box, because \<open>(4294967296, 0)\<close> and \<open>(0, 0)\<close> share slot \<open>0\<close>.
\<close>

theorem assign_range_fill_counterexample:
  "makeMultiArray (0 :: nat) wide_dims = Some wide_array \<and> invariant wide_array \<and>
   valid_ranges wide_dims [(4294967296, 4294967297), (0, 1)] \<and>
   valid_index wide_dims [0, 0] \<and>
   \<not> in_box [(4294967296, 4294967297), (0, 1)] [0, 0] \<and>
   operator_call wide_array [0, 0] = Some 0 \<and>
   assign wide_array [(4294967296, 4294967297), (0, 1)] 9 =
     Some (wide_array\<lparr>d_data := (d_data wide_array)[0 := 9]\<rparr>) \<and>
   operator_call (wide_array\<lparr>d_data := (d_data wide_array)[0 := 9]\<rparr>) [0, 0] = Some 9"
  using wide_idx wide_invariant wide_made
  by (simp add: assign_def operator_call_def wide_array_def wide_Assign_alias
      valid_ranges_def valid_index_def in_box_def) (simp add: wide_dims_def)

text \<open>
  C7. For \<open>D \<ge> 1\<close> and a range table in which some axis \<open>k\<close> has \<open>begin\<^sub>k = end\<^sub>k\<close>,
  \<^verbatim>\<open>assign(ranges, value)\<close> returns normally and leaves the array as it was: an empty range
  is a no-op, not an error. The other axes of the table are not constrained.
\<close>

theorem assign_empty_range_noop:
  "length ranges = dim self \<Longrightarrow> k < dim self \<Longrightarrow> fst (ranges ! k) = snd (ranges ! k) \<Longrightarrow>
   assign self ranges v = Some self"
  by (simp add: assign_def dim_def Assign_empty_axis [where k = k])

theorem assign_empty_range_noop_witness:
  "length [(0, 2), (1, 1 :: size_t)] = dim \<lparr>d_data = [1, 2, 3, 4, 5, 6, 7, 8, 9 :: nat], d_dimensions = [3, 3]\<rparr> \<and>
   1 < dim \<lparr>d_data = [1, 2, 3, 4, 5, 6, 7, 8, 9 :: nat], d_dimensions = [3, 3]\<rparr> \<and>
   assign \<lparr>d_data = [1, 2, 3, 4, 5, 6, 7, 8, 9 :: nat], d_dimensions = [3, 3]\<rparr> [(0, 2), (1, 1)] 0 =
     Some \<lparr>d_data = [1, 2, 3, 4, 5, 6, 7, 8, 9], d_dimensions = [3, 3]\<rparr>"
  using assign_empty_range_noop
    [of "[(0, 2), (1, 1)]" "\<lparr>d_data = [1, 2, 3, 4, 5, 6, 7, 8, 9 :: nat], d_dimensions = [3, 3]\<rparr>" 1 0]
  by (simp add: dim_def)

text \<open>
  C5, as amended. \<^verbatim>\<open>assign(ranges, value)\<close> validates nothing and reports no usage error.
  On an array that satisfies the class invariant, for every range table with
  \<open>begin\<^sub>k \<le> end\<^sub>k\<close> on every axis, whether or not \<open>end\<^sub>k \<le> dimensions[k]\<close>: if every index
  tuple of the box has its row-major offset inside the backing store, the call returns
  normally and stores \<open>value\<close> at exactly these offsets.
\<close>

theorem assign_unchecked:
  assumes "invariant self" and "length ranges = dim self"
    and "\<forall>r \<in> set ranges. fst r \<le> snd r"
    and "run_slots (d_dimensions self) ranges 0 [] \<subseteq> {..<length (d_data self)}"
  shows "assign self ranges v =
    Some (self\<lparr>d_data := overwrite (d_data self) (run_slots (d_dimensions self) ranges 0 []) v\<rparr>)"
proof -
  let ?dims = "d_dimensions self"
  have "Assign ?dims ranges v 0 [] (d_data self) =
      Some (overwrite (d_data self) (run_slots ?dims ranges 0 []) v)"
  proof (rule Assign_overwrite)
    show "length ranges = length ?dims"
      using assms(2) by (simp add: dim_def)
    show "0 < length ?dims"
      using invariant_nonempty [OF assms(1)] by simp
    show "\<forall>r \<in> set (drop 0 ranges). fst r \<le> snd r"
      using assms(3) by simp
    show "length (d_data self) < 2 ^ 64"
      using assms(1) by (rule invariant_small)
    show "run_slots ?dims ranges 0 [] \<subseteq> {..<length (d_data self)}"
      by (rule assms(4))
  qed simp
  then show ?thesis
    by (simp add: assign_def)
qed

theorem assign_unchecked_witness:
  "invariant \<lparr>d_data = [10, 11, 12, 13, 14, 15 :: nat], d_dimensions = [2, 3]\<rparr> \<and>
   length ([(0, 1), (2, 5)] :: (size_t \<times> size_t) list) =
     dim \<lparr>d_data = [10, 11, 12, 13, 14, 15 :: nat], d_dimensions = [2, 3]\<rparr> \<and>
   list_all (\<lambda>r. fst r \<le> snd r) ([(0, 1), (2, 5)] :: (size_t \<times> size_t) list) \<and>
   run_slots [2, 3] [(0, 1), (2, 5)] 0 [] = {2, 3, 4} \<and>
   assign \<lparr>d_data = [10, 11, 12, 13, 14, 15 :: nat], d_dimensions = [2, 3]\<rparr> [(0, 1), (2, 5)] 9 =
     Some \<lparr>d_data = [10, 11, 9, 9, 9, 15], d_dimensions = [2, 3]\<rparr>"
proof -
  let ?m = "\<lparr>d_data = [10, 11, 12, 13, 14, 15 :: nat], d_dimensions = [2, 3]\<rparr>"
  have i: "invariant ?m"
    by (simp add: invariant_def)
  have l: "length ([(0, 1), (2, 5)] :: (size_t \<times> size_t) list) = dim ?m"
    by (simp add: dim_def)
  have r: "\<forall>r \<in> set ([(0, 1), (2, 5)] :: (size_t \<times> size_t) list). fst r \<le> snd r"
    by simp
  have s: "run_slots (d_dimensions ?m) [(0, 1), (2, 5)] 0 [] \<subseteq> {..<length (d_data ?m)}"
    by (simp add: small_slots)
  have o: "overwrite [10, 11, 12, 13, 14, 15 :: nat] {2, 3, 4} 9 = [10, 11, 9, 9, 9, 15]"
    by code_simp
  from assign_unchecked [OF i l r s, of 9] i l show ?thesis
    by (simp add: small_slots o)
qed

text \<open>
  The claim as stated fails: for the dimensions \<open>(2, 3)\<close> the table \<open>{[0,1), [2,5)}\<close> is
  invalid (\<open>5 > 3\<close>), yet the call returns normally, with no error, having stored the value
  at the slots \<open>2, 3, 4\<close>; the element at \<open>(1, 0)\<close>, which is outside the box, is overwritten.
\<close>

theorem assign_unchecked_counterexample:
  "\<not> valid_ranges [2, 3] [(0, 1), (2, 5)] \<and>
   assign \<lparr>d_data = [10, 11, 12, 13, 14, 15 :: nat], d_dimensions = [2, 3]\<rparr> [(0, 1), (2, 5)] 9 =
     Some \<lparr>d_data = [10, 11, 9, 9, 9, 15], d_dimensions = [2, 3]\<rparr> \<and>
   valid_index [2, 3] [1, 0] \<and> \<not> in_box [(0, 1), (2, 5)] [1, 0] \<and>
   operator_call \<lparr>d_data = [10, 11, 12, 13, 14, 15 :: nat], d_dimensions = [2, 3]\<rparr> [1, 0] = Some 13 \<and>
   operator_call \<lparr>d_data = [10, 11, 9, 9, 9, 15 :: nat], d_dimensions = [2, 3]\<rparr> [1, 0] = Some 9"
  by code_simp

section \<open>The debug counter\<close>

text \<open>
  C9, as amended. In the debug variant, every call \<^verbatim>\<open>assign(ranges, value)\<close> with a valid
  range table that returns leaves \<open>counter\<close> at the old value plus the product over all \<open>k\<close>
  of \<open>end\<^sub>k - begin\<^sub>k\<close>, taken modulo \<open>2 ^ 64\<close>: \<open>counter\<close> is a \<^verbatim>\<open>std::size_t\<close> and its addition
  wraps. So \<open>counter\<close> increases by exactly the number of elements touched whenever that
  sum fits \<^verbatim>\<open>std::size_t\<close>. The call returns on every array that satisfies the class
  invariant and whose dimension product does not wrap around. The element write through
  \<^verbatim>\<open>operator()\<close> and the uniform \<^verbatim>\<open>assign(value)\<close> leave \<open>counter\<close> as it is; the remaining
  members are \<^verbatim>\<open>const\<close> or return a reference to the backing store only.
\<close>

theorem assign_debug_counter:
  fixes self :: "'a MultiArray_debug"
  assumes "valid_ranges (d_dimensions self) ranges"
  shows "(\<forall>self'. assign_debug self ranges v = Some self' \<longrightarrow>
      unat (counter self') =
        (unat (counter self) + prod_list (map (\<lambda>r. unat (snd r) - unat (fst r)) ranges))
        mod 2 ^ 64) \<and>
    (invariant self \<and> no_overflow (d_dimensions self) \<longrightarrow>
      (\<exists>self'. assign_debug self ranges v = Some self')) \<and>
    (\<forall>idx w self'. operator_call_store self idx w = Some self' \<longrightarrow>
       counter self' = counter self) \<and>
    (\<forall>w self'. assign_fill self w = Some self' \<longrightarrow> counter self' = counter self)"
proof (intro conjI allI impI)
  fix self'
  assume s: "assign_debug self ranges v = Some self'"
  let ?P = "prod_list (map (\<lambda>r. unat (snd r) - unat (fst r)) ranges)"
  from assms have len: "length ranges = length (d_dimensions self)"
    by (simp add: valid_ranges_def list_all2_lengthD)
  from assign_debug_counter_word [OF len s]
  have "unat (counter self') = (unat (counter self) + unat (box_size ranges)) mod 2 ^ LENGTH(64)"
    by (simp add: unat_word_ariths)
  also have "\<dots> = (unat (counter self) + ?P mod 2 ^ 64) mod 2 ^ 64"
    by (simp add: unat_box_size_mod [OF assms])
  also have "\<dots> = (unat (counter self) + ?P) mod 2 ^ 64"
    by (rule mod_add_right_eq)
  finally show "unat (counter self') = (unat (counter self) + ?P) mod 2 ^ 64" .
next
  assume "invariant self \<and> no_overflow (d_dimensions self)"
  then have i: "invariant self" and n: "no_overflow (d_dimensions self)"
    by simp_all
  from assms have len: "length ranges = length (d_dimensions self)"
    by (simp add: valid_ranges_def list_all2_lengthD)
  have "Assign_debug (d_dimensions self) ranges v 0 [] (d_data self, counter self) =
      map_option (\<lambda>ys. (ys, counter self + box_size (drop 0 ranges)))
        (Assign (d_dimensions self) ranges v 0 [] (d_data self))"
    using len by (rule Assign_debug_eq)
  with Assign_valid [OF i n assms, of v]
  show "\<exists>self'. assign_debug self ranges v = Some self'"
    by (simp add: assign_debug_def)
next
  fix idx w self'
  assume "operator_call_store self idx w = Some self'"
  then show "counter self' = counter self"
    by (auto simp add: operator_call_store_def split: option.splits if_splits)
next
  fix w self'
  assume "assign_fill self w = Some self'"
  then show "counter self' = counter self"
    by (auto simp add: assign_fill_def split: option.splits)
qed

theorem assign_debug_counter_witness:
  "invariant \<lparr>d_data = [10, 11, 12, 13, 14, 15, 16, 17, 18 :: nat], d_dimensions = [3, 3], counter = 5\<rparr> \<and>
   no_overflow [3, 3] \<and> valid_ranges [3, 3] [(0, 2), (1, 3)] \<and>
   assign_debug
     \<lparr>d_data = [10, 11, 12, 13, 14, 15, 16, 17, 18 :: nat], d_dimensions = [3, 3], counter = 5\<rparr>
     [(0, 2), (1, 3)] 9 =
     Some \<lparr>d_data = [10, 9, 9, 13, 9, 9, 16, 17, 18], d_dimensions = [3, 3], counter = 9\<rparr> \<and>
   unat (9 :: size_t) = (unat (5 :: size_t) + (2 - 0) * (3 - 1)) mod 2 ^ 64"
proof -
  let ?m = "\<lparr>d_data = [10, 11, 12, 13, 14, 15, 16, 17, 18 :: nat], d_dimensions = [3, 3],
    counter = 5\<rparr>"
  have i: "invariant ?m"
    by (simp add: invariant_def)
  have n: "no_overflow (d_dimensions ?m)"
    by (simp add: no_overflow_def)
  have r: "valid_ranges (d_dimensions ?m) [(0, 2), (1, 3)]"
    by (simp add: valid_ranges_def)
  have e: "map_option d_data (assign_debug ?m [(0, 2), (1, 3)] 9) =
      Some [10, 9, 9, 13, 9, 9, 16, 17, 18]"
    by code_simp
  have d: "map_option d_dimensions (assign_debug ?m [(0, 2), (1, 3)] 9) = Some [3, 3]"
    by code_simp
  note t = assign_debug_counter [OF r, of 9]
  from t i n obtain self' where s: "assign_debug ?m [(0, 2), (1, 3)] 9 = Some self'"
    by blast
  with t have "unat (counter self') = unat (9 :: size_t)"
    by simp
  then have c: "counter self' = 9"
    by (simp only: word_unat_eq_iff)
  from s e d c have "self' =
      \<lparr>d_data = [10, 9, 9, 13, 9, 9, 16, 17, 18], d_dimensions = [3, 3], counter = 9\<rparr>"
    by (cases self') simp
  with s i n r show ?thesis
    by simp
qed

text \<open>
  Without the reduction the claim fails: \<open>counter\<close> is a public member, and with
  \<open>counter = 2 ^ 64 - 1\<close> the assignment over the table \<open>{[0,2), [1,3)}\<close> of a \<open>(3, 3)\<close> array,
  which touches \<open>4\<close> elements, returns with \<open>counter = 3\<close>.
\<close>

theorem assign_debug_counter_counterexample:
  "valid_ranges [3, 3] [(0, 2), (1, 3)] \<and>
   assign_debug
     \<lparr>d_data = [10, 11, 12, 13, 14, 15, 16, 17, 18 :: nat], d_dimensions = [3, 3],
       counter = 18446744073709551615\<rparr>
     [(0, 2), (1, 3)] 9 =
     Some \<lparr>d_data = [10, 9, 9, 13, 9, 9, 16, 17, 18], d_dimensions = [3, 3], counter = 3\<rparr> \<and>
   unat (18446744073709551615 :: size_t) + (2 - 0) * (3 - 1) = 18446744073709551619 \<and>
   unat (3 :: size_t) = 3"
proof -
  have "assign_debug
      \<lparr>d_data = [10, 11, 12, 13, 14, 15, 16, 17, 18 :: nat], d_dimensions = [3, 3],
        counter = 18446744073709551615\<rparr>
      [(0, 2), (1, 3)] 9 =
      Some \<lparr>d_data = [10, 9, 9, 13, 9, 9, 16, 17, 18], d_dimensions = [3, 3], counter = 3\<rparr>"
    by code_simp
  then show ?thesis
    by (simp add: valid_ranges_def)
qed

section \<open>Construction and the invariant of the data model\<close>

text \<open>
  C8, as amended. For \<open>D \<ge> 1\<close> sizes \<open>s\<^sub>0, \<dots>, s\<^sub>D\<^sub>-\<^sub>1\<close> the constructor creates the backing store with
  exactly \<open>(s\<^sub>0 * \<dots> * s\<^sub>D\<^sub>-\<^sub>1) mod 2 ^ 64\<close> elements, each the default value: \<^verbatim>\<open>product\<close>
  multiplies in \<^verbatim>\<open>std::size_t\<close>. This number is \<open>0\<close> when some size is \<open>0\<close>, and it is
  \<open>total = s\<^sub>0 * \<dots> * s\<^sub>D\<^sub>-\<^sub>1\<close> when that product fits \<^verbatim>\<open>std::size_t\<close>; in that case the invariant
  \<open>len(data) = product(dimensions)\<close> of the data model holds after construction. The
  invariant is preserved by the element write and by both overloads of \<^verbatim>\<open>assign\<close>, in each
  variant; \<^verbatim>\<open>index\<close>, \<^verbatim>\<open>dim\<close>, \<^verbatim>\<open>size\<close> and the reading \<^verbatim>\<open>operator()\<close> are \<^verbatim>\<open>const\<close> and return no
  new state. In every case the length of the store is what \<^verbatim>\<open>product\<close> returns.
\<close>

theorem construction_invariant:
  fixes self :: "('a, 'z) MultiArray_scheme" and dself :: "'a MultiArray_debug"
  shows "(args \<noteq> [] \<longrightarrow>
      makeMultiArray dflt args =
        Some \<lparr>d_data = replicate (prod_list (map unat args) mod 2 ^ 64) dflt,
          d_dimensions = args\<rparr> \<and>
      makeMultiArray_debug dflt args =
        Some \<lparr>d_data = replicate (prod_list (map unat args) mod 2 ^ 64) dflt,
          d_dimensions = args, counter = 0\<rparr> \<and>
      invariant \<lparr>d_data = replicate (prod_list (map unat args) mod 2 ^ 64) dflt,
        d_dimensions = args\<rparr> \<and>
      invariant \<lparr>d_data = replicate (prod_list (map unat args) mod 2 ^ 64) dflt,
        d_dimensions = args, counter = 0\<rparr> \<and>
      (0 \<in> set args \<longrightarrow> prod_list (map unat args) mod 2 ^ 64 = 0) \<and>
      (no_overflow args \<longrightarrow>
         prod_list (map unat args) mod 2 ^ 64 = prod_list (map unat args) \<and>
         slot_invariant \<lparr>d_data = replicate (prod_list (map unat args) mod 2 ^ 64) dflt,
           d_dimensions = args\<rparr> \<and>
         slot_invariant \<lparr>d_data = replicate (prod_list (map unat args) mod 2 ^ 64) dflt,
           d_dimensions = args, counter = 0\<rparr>)) \<and>
    (slot_invariant self \<longrightarrow>
      (\<forall>idx w self'. operator_call_store self idx w = Some self' \<longrightarrow> slot_invariant self') \<and>
      (\<forall>ranges w self'. assign self ranges w = Some self' \<longrightarrow> slot_invariant self') \<and>
      (\<forall>ranges w self'. assign_iter self ranges w = Some self' \<longrightarrow> slot_invariant self') \<and>
      (\<forall>w. \<exists>self'. assign_fill self w = Some self' \<and> slot_invariant self')) \<and>
    (slot_invariant dself \<longrightarrow>
      (\<forall>ranges w self'. assign_debug dself ranges w = Some self' \<longrightarrow> slot_invariant self'))"
proof (intro conjI impI allI)
  assume "args \<noteq> []"
  then have "product args = Some (prod_list args)"
    by (rule product_prod_list)
  then have p: "product args = Some (prod_list args) \<and>
      unat (prod_list args) = prod_list (map unat args) mod 2 ^ 64"
    by (simp add: unat_prod_list_mod)
  from p show "makeMultiArray dflt args =
      Some \<lparr>d_data = replicate (prod_list (map unat args) mod 2 ^ 64) dflt,
        d_dimensions = args\<rparr>"
    by (simp add: makeMultiArray_def)
  from p show "makeMultiArray_debug dflt args =
      Some \<lparr>d_data = replicate (prod_list (map unat args) mod 2 ^ 64) dflt,
        d_dimensions = args, counter = 0\<rparr>"
    by (simp add: makeMultiArray_debug_def)
  from p show "invariant \<lparr>d_data = replicate (prod_list (map unat args) mod 2 ^ 64) dflt,
      d_dimensions = args\<rparr>"
    by (simp add: invariant_def)
  from p show "invariant \<lparr>d_data = replicate (prod_list (map unat args) mod 2 ^ 64) dflt,
      d_dimensions = args, counter = 0\<rparr>"
    by (simp add: invariant_def)
next
  assume "0 \<in> set args"
  then show "prod_list (map unat args) mod 2 ^ 64 = 0"
    by (simp add: prod_list_nat_zero)
next
  assume "no_overflow args"
  then show "prod_list (map unat args) mod 2 ^ 64 = prod_list (map unat args)"
    by (simp add: no_overflow_def)
next
  assume "args \<noteq> []" and "no_overflow args"
  then show "slot_invariant \<lparr>d_data = replicate (prod_list (map unat args) mod 2 ^ 64) dflt,
      d_dimensions = args\<rparr>"
    by (simp add: slot_invariant_def no_overflow_def)
next
  assume "args \<noteq> []" and "no_overflow args"
  then show "slot_invariant \<lparr>d_data = replicate (prod_list (map unat args) mod 2 ^ 64) dflt,
      d_dimensions = args, counter = 0\<rparr>"
    by (simp add: slot_invariant_def no_overflow_def)
next
  fix idx w self'
  assume "slot_invariant self" and "operator_call_store self idx w = Some self'"
  then show "slot_invariant self'"
    by (auto simp add: operator_call_store_def slot_invariant_data
        split: option.splits if_splits)
next
  fix ranges w self'
  assume "slot_invariant self" and "assign self ranges w = Some self'"
  then show "slot_invariant self'"
    by (auto simp add: assign_def slot_invariant_data split: option.splits
        dest: Assign_length)
next
  fix ranges w self'
  assume "slot_invariant self" and "assign_iter self ranges w = Some self'"
  then show "slot_invariant self'"
    by (auto simp add: assign_iter_def slot_invariant_data split: option.splits if_splits
        dest: Assign_iter_length)
next
  fix w
  assume "slot_invariant self"
  then show "\<exists>self'. assign_fill self w = Some self' \<and> slot_invariant self'"
    by (simp add: assign_fill_total slot_invariant_data)
next
  fix ranges w self'
  assume "slot_invariant dself" and "assign_debug dself ranges w = Some self'"
  then show "slot_invariant self'"
    by (auto simp add: assign_debug_def slot_invariant_def split: option.splits prod.splits
        dest: Assign_debug_length)
qed

theorem construction_invariant_witness:
  "[2, 0, 4 :: size_t] \<noteq> [] \<and> 0 \<in> set [2, 0, 4 :: size_t] \<and> no_overflow [2, 3] \<and>
   makeMultiArray (7 :: nat) [2, 0, 4] = Some \<lparr>d_data = [], d_dimensions = [2, 0, 4]\<rparr> \<and>
   makeMultiArray (7 :: nat) [2, 3] =
     Some \<lparr>d_data = [7, 7, 7, 7, 7, 7], d_dimensions = [2, 3]\<rparr> \<and>
   slot_invariant \<lparr>d_data = [7, 7, 7, 7, 7, 7 :: nat], d_dimensions = [2, 3]\<rparr> \<and>
   (\<exists>self'. assign_fill \<lparr>d_data = [7, 7, 7, 7, 7, 7 :: nat], d_dimensions = [2, 3]\<rparr> 1 = Some self' \<and>
      slot_invariant self')"
proof -
  have a: "[2, 0, 4 :: size_t] \<noteq> []" and b: "[2, 3 :: size_t] \<noteq> []"
    by simp_all
  have z: "0 \<in> set [2, 0, 4 :: size_t]"
    by simp
  have n: "no_overflow [2, 3]"
    by (simp add: no_overflow_def)
  have r: "replicate 6 (7 :: nat) = [7, 7, 7, 7, 7, 7]"
    by code_simp
  note t1 = construction_invariant [of "[2, 0, 4]" "7 :: nat"
      "\<lparr>d_data = [7, 7, 7, 7, 7, 7 :: nat], d_dimensions = [2, 3]\<rparr>"]
  note t2 = construction_invariant [of "[2, 3]" "7 :: nat"
      "\<lparr>d_data = [7, 7, 7, 7, 7, 7 :: nat], d_dimensions = [2, 3]\<rparr>"]
  from t2 b n r have i: "slot_invariant \<lparr>d_data = [7, 7, 7, 7, 7, 7 :: nat], d_dimensions = [2, 3]\<rparr>"
    by simp
  from t1 a z have m1: "makeMultiArray (7 :: nat) [2, 0, 4] =
      Some \<lparr>d_data = [], d_dimensions = [2, 0, 4]\<rparr>"
    by simp
  from t2 b r have m2: "makeMultiArray (7 :: nat) [2, 3] =
      Some \<lparr>d_data = [7, 7, 7, 7, 7, 7], d_dimensions = [2, 3]\<rparr>"
    by simp
  from t2 i have "\<exists>self'. assign_fill \<lparr>d_data = [7, 7, 7, 7, 7, 7 :: nat], d_dimensions = [2, 3]\<rparr> 1 =
      Some self' \<and> slot_invariant self'"
    by blast
  with a z n m1 m2 i show ?thesis
    by blast
qed

text \<open>
  As stated the claim fails: the sizes \<open>(4294967297, 4294967296)\<close> multiply to
  \<open>2 ^ 64 + 2 ^ 32\<close> and the constructed store has \<open>2 ^ 32\<close> elements; the sizes
  \<open>(4294967296, 4294967296)\<close>, none of them \<open>0\<close>, multiply to \<open>2 ^ 64\<close> and the constructed
  store is empty.
\<close>

theorem construction_invariant_counterexample:
  "makeMultiArray (0 :: nat) wide_dims = Some wide_array \<and>
   length (d_data wide_array) = 4294967296 \<and>
   prod_list (map unat wide_dims) = 18446744078004518912 \<and>
   \<not> slot_invariant wide_array \<and>
   makeMultiArray (0 :: nat) [4294967296, 4294967296] =
     Some \<lparr>d_data = [], d_dimensions = [4294967296, 4294967296]\<rparr> \<and>
   0 \<notin> set [4294967296, 4294967296 :: size_t] \<and>
   prod_list (map unat [4294967296, 4294967296 :: size_t]) = 18446744073709551616"
  using wide_made
  by (simp add: wide_array_def slot_invariant_def makeMultiArray_def)
    (simp add: wide_dims_def)

section \<open>The three variants of the range assignment\<close>

text \<open>
  C4. Started on the same backing store and dimensions, with any value and any range table
  of \<open>D\<close> rows, the range assignment that fills between the element addresses
  \<^verbatim>\<open>&d_data[begin]\<close> and \<^verbatim>\<open>&d_data[end]\<close> (the debug variant, and \<^verbatim>\<open>multiarr.h\<close>) and the one that
  fills between the iterators \<^verbatim>\<open>d_data.begin() + offset\<close> have the same outcome: both are
  undefined, or both return with identical backing stores. For a valid range table on an
  array that satisfies the class invariant and whose dimension product does not wrap
  around, both return, with the value stored at the slots of the box. The backing store is
  a \<^verbatim>\<open>std::vector\<close>, which holds at most \<^verbatim>\<open>PTRDIFF_MAX\<close> elements.
\<close>

theorem range_assign_variants_agree:
  fixes a :: "'a MultiArray_debug" and b :: "('a, 'z) MultiArray_scheme"
  assumes "d_data b = d_data a" and "d_dimensions b = d_dimensions a"
    and "length ranges = dim a" and "int (length (d_data a)) \<le> PTRDIFF_MAX"
  shows "map_option d_data (assign_debug a ranges v) = map_option d_data (assign_iter b ranges v) \<and>
    map_option d_data (assign b ranges v) = map_option d_data (assign_iter b ranges v) \<and>
    (invariant a \<and> no_overflow (d_dimensions a) \<and> valid_ranges (d_dimensions a) ranges \<longrightarrow>
       map_option d_data (assign_iter b ranges v) =
       Some (overwrite (d_data a) (run_slots (d_dimensions a) ranges 0 []) v))"
proof (cases "d_dimensions a = []")
  case True
  with assms(2) show ?thesis
    by (auto simp add: assign_debug_def assign_def assign_iter_def Assign_no_dims
        Assign_debug_no_dims dest: invariant_nonempty)
next
  case False
  let ?dims = "d_dimensions a"
  let ?A = "Assign ?dims ranges v 0 [] (d_data a)"
  from False have ne: "length ?dims \<noteq> 0"
    by simp
  have it: "Assign_iter ?dims ranges v 0 (length ?dims - 1) [] (d_data a) = ?A"
    using assms(4) ne by (rule Assign_iter_eq)
  have db: "Assign_debug ?dims ranges v 0 [] (d_data a, counter a) =
      map_option (\<lambda>ys. (ys, counter a + box_size (drop 0 ranges))) ?A"
    using assms(3) by (intro Assign_debug_eq) (simp add: dim_def)
  have i: "map_option d_data (assign_iter b ranges v) = ?A"
    using assms(1,2) ne it by (simp add: assign_iter_def split: option.splits)
  have d: "map_option d_data (assign_debug a ranges v) = ?A"
    using db by (simp add: assign_debug_def split: option.splits)
  have p: "map_option d_data (assign b ranges v) = ?A"
    using assms(1,2) by (simp add: assign_def split: option.splits)
  have "?A = Some (overwrite (d_data a) (run_slots ?dims ranges 0 []) v)"
    if "invariant a" and "no_overflow ?dims" and "valid_ranges ?dims ranges"
    using that by (rule Assign_valid)
  with i d p show ?thesis
    by simp
qed

theorem range_assign_variants_agree_witness:
  "length ([(0, 2), (1, 3)] :: (size_t \<times> size_t) list) =
     dim \<lparr>d_data = [10, 11, 12, 13, 14, 15, 16, 17, 18 :: nat], d_dimensions = [3, 3], counter = 0\<rparr> \<and>
   int (length [10, 11, 12, 13, 14, 15, 16, 17, 18 :: nat]) \<le> PTRDIFF_MAX \<and>
   map_option d_data (assign_debug
     \<lparr>d_data = [10, 11, 12, 13, 14, 15, 16, 17, 18 :: nat], d_dimensions = [3, 3], counter = 0\<rparr>
     [(0, 2), (1, 3)] 9) = Some [10, 9, 9, 13, 9, 9, 16, 17, 18] \<and>
   map_option d_data (assign_iter
     \<lparr>d_data = [10, 11, 12, 13, 14, 15, 16, 17, 18 :: nat], d_dimensions = [3, 3]\<rparr>
     [(0, 2), (1, 3)] 9) = Some [10, 9, 9, 13, 9, 9, 16, 17, 18]"
proof -
  let ?a = "\<lparr>d_data = [10, 11, 12, 13, 14, 15, 16, 17, 18 :: nat], d_dimensions = [3, 3],
    counter = 0\<rparr>"
  let ?b = "\<lparr>d_data = [10, 11, 12, 13, 14, 15, 16, 17, 18 :: nat], d_dimensions = [3, 3]\<rparr>"
  have h1: "d_data ?b = d_data ?a" and h2: "d_dimensions ?b = d_dimensions ?a"
    by simp_all
  have h3: "length ([(0, 2), (1, 3)] :: (size_t \<times> size_t) list) = dim ?a"
    by (simp add: dim_def)
  have h4: "int (length (d_data ?a)) \<le> PTRDIFF_MAX"
    by (simp add: PTRDIFF_MAX_def)
  have e: "map_option d_data (assign_debug ?a [(0, 2), (1, 3)] 9) =
      Some [10, 9, 9, 13, 9, 9, 16, 17, 18]"
    by code_simp
  from range_assign_variants_agree [OF h1 h2 h3 h4, of 9] e h3 h4 show ?thesis
    by simp
qed

end
